theory Spec2Isabelle
  imports Main
begin

section \<open>Data model\<close>

text \<open>
  The program is the TypeScript of the vending-machine publish/subscribe router:
  \<^verbatim>\<open>PublishSubscribeService\<close>, the four event classes, the four subscriber classes and
  \<^verbatim>\<open>Machine\<close>. Objects are shared by reference there (every subscriber is built on the
  same \<^verbatim>\<open>machines\<close> array, the registry keeps arrays of subscriber references), so the
  model keeps an explicit store: a reference is an address (a natural number) and the
  store maps addresses to objects. Stock levels and quantities are TypeScript numbers;
  the model takes them as integers. What the program prints with \<^verbatim>\<open>console.log\<close> is
  left out.
\<close>

text \<open>\<^verbatim>\<open>class Machine { public stockLevel = 10; public id: string }\<close>\<close>

record Machine =
  stockLevel :: int
  idM :: string

text \<open>
  \<^verbatim>\<open>interface IEvent { type(): string; machineId(): string }\<close> with its four classes.
  The interface is open: \<open>OtherEvent ty mid\<close> stands for an object of any other class
  that implements it, with the type string \<open>ty\<close> and the machine id \<open>mid\<close>.
\<close>

datatype IEvent =
    MachineSaleEvent int string
  | MachineRefillEvent int string
  | LowStockWarningEvent string
  | StockLevelOkEvent string
  | OtherEvent string string

fun type_of :: "IEvent \<Rightarrow> string" where
  "type_of (MachineSaleEvent sold mid) = ''sale''"
| "type_of (MachineRefillEvent refill mid) = ''refill''"
| "type_of (LowStockWarningEvent mid) = ''low_stock_warning''"
| "type_of (StockLevelOkEvent mid) = ''stock_level_ok''"
| "type_of (OtherEvent ty mid) = ty"

fun machineId :: "IEvent \<Rightarrow> string" where
  "machineId (MachineSaleEvent sold mid) = mid"
| "machineId (MachineRefillEvent refill mid) = mid"
| "machineId (LowStockWarningEvent mid) = mid"
| "machineId (StockLevelOkEvent mid) = mid"
| "machineId (OtherEvent ty mid) = mid"

text \<open>What \<^verbatim>\<open>handle\<close> returns: \<^verbatim>\<open>IEvent[] | IEvent | void\<close>.\<close>

datatype result = Void | Single IEvent | Array "IEvent list"

text \<open>
  \<^verbatim>\<open>interface ISubscriber\<close> with its four classes. The array-based subscribers hold the
  address of their \<^verbatim>\<open>machines\<close> array; the stock-warning subscriber holds its
  \<^verbatim>\<open>Map<string, [Machine, boolean]>\<close>. The interface is open as well:
  \<open>OtherSubscriber f\<close> stands for any other implementation, described by what its
  \<^verbatim>\<open>handle\<close> does for an event: the calls it makes on the router, in order, and then
  either a returned value or a thrown exception.
\<close>

datatype action =
    CallPublish IEvent
  | CallSubscribe string nat
  | CallUnsubscribe string nat

datatype ending = Return result | Throw string

datatype ISubscriber =
    MachineSaleSubscriber nat
  | MachineRefillSubscriber nat
  | StockWarningSubscriber "string \<rightharpoonup> nat \<times> bool"
  | StockLoggerSubscriber nat
  | OtherSubscriber "IEvent \<Rightarrow> action list \<times> ending"

datatype error = HandlerError string

text \<open>
  The state of the whole program. The first group is the object store, the second the
  fields of the one \<^verbatim>\<open>PublishSubscribeService\<close>, the third a history that no code
  reads: every event pushed on the queue, every event shifted off it, every call of
  \<^verbatim>\<open>handle\<close> made by the drain loop, the number of runs of the \<^verbatim>\<open>while\<close> loop of \<^verbatim>\<open>publish\<close>
  that are under way and the largest number of them that ever were at once.
\<close>

record World =
  machines :: "nat \<Rightarrow> Machine"
  machineArrays :: "nat \<Rightarrow> nat list"
  nextMachineArray :: nat
  objects :: "nat \<Rightarrow> ISubscriber"
  handlerArrays :: "nat \<Rightarrow> nat list"
  nextHandlerArray :: nat
  subscribers :: "string \<rightharpoonup> nat"
  eventQueue :: "IEvent list"
  isPublishing :: bool
  enqueued :: "IEvent list"
  dequeued :: "IEvent list"
  handled :: "(nat \<times> IEvent) list"
  activeDrains :: nat
  maxActiveDrains :: nat

section \<open>Subscribers\<close>

text \<open>
  \<^verbatim>\<open>Array.prototype.findIndex\<close>: the index of the first element that satisfies the
  test; \<open>None\<close> is the \<^verbatim>\<open>-1\<close> of JavaScript.
\<close>

fun findIndex :: "('a \<Rightarrow> bool) \<Rightarrow> 'a list \<Rightarrow> nat option" where
  "findIndex P [] = None"
| "findIndex P (x # xs) =
     (if P x then Some 0 else map_option Suc (findIndex P xs))"

text \<open>
  \<^verbatim>\<open>addMachine\<close>: a push on the array (in place), a \<^verbatim>\<open>set\<close> on the map. For a
  subscriber of another class \<^verbatim>\<open>addMachine\<close> and \<^verbatim>\<open>removeMachine\<close> are taken to do
  nothing.
\<close>

definition addMachine :: "nat \<Rightarrow> nat \<Rightarrow> World \<Rightarrow> World" where
  "addMachine h m w =
     (case objects w h of
        MachineSaleSubscriber a \<Rightarrow>
          w\<lparr>machineArrays := (machineArrays w)(a := machineArrays w a @ [m])\<rparr>
      | MachineRefillSubscriber a \<Rightarrow>
          w\<lparr>machineArrays := (machineArrays w)(a := machineArrays w a @ [m])\<rparr>
      | StockWarningSubscriber tbl \<Rightarrow>
          w\<lparr>objects := (objects w)
               (h := StockWarningSubscriber (tbl(idM (machines w m) \<mapsto> (m, False))))\<rparr>
      | StockLoggerSubscriber a \<Rightarrow>
          w\<lparr>machineArrays := (machineArrays w)(a := machineArrays w a @ [m])\<rparr>
      | OtherSubscriber f \<Rightarrow> w)"

text \<open>
  \<^verbatim>\<open>this.machines = this.machines.filter((m) => m.id !== machine.id)\<close>: the result of
  \<^verbatim>\<open>filter\<close> is a new array, which the subscriber holds from then on; the array it held
  before is left as it was.
\<close>

definition filterMachines :: "nat \<Rightarrow> nat \<Rightarrow> World \<Rightarrow> World" where
  "filterMachines a m w =
     w\<lparr>machineArrays := (machineArrays w)
          (nextMachineArray w :=
             filter (\<lambda>x. idM (machines w x) \<noteq> idM (machines w m)) (machineArrays w a)),
       nextMachineArray := nextMachineArray w + 1\<rparr>"

definition removeMachine :: "nat \<Rightarrow> nat \<Rightarrow> World \<Rightarrow> World" where
  "removeMachine h m w =
     (case objects w h of
        MachineSaleSubscriber a \<Rightarrow>
          (filterMachines a m w)
            \<lparr>objects := (objects w)(h := MachineSaleSubscriber (nextMachineArray w))\<rparr>
      | MachineRefillSubscriber a \<Rightarrow>
          (filterMachines a m w)
            \<lparr>objects := (objects w)(h := MachineRefillSubscriber (nextMachineArray w))\<rparr>
      | StockWarningSubscriber tbl \<Rightarrow>
          w\<lparr>objects := (objects w)
               (h := StockWarningSubscriber (tbl(idM (machines w m) := None)))\<rparr>
      | StockLoggerSubscriber a \<Rightarrow>
          (filterMachines a m w)
            \<lparr>objects := (objects w)(h := StockLoggerSubscriber (nextMachineArray w))\<rparr>
      | OtherSubscriber f \<Rightarrow> w)"

text \<open>
  \<^verbatim>\<open>this.machines[machineIndex].stockLevel -= event.getSoldQuantity()\<close>, and the same
  with \<^verbatim>\<open>+=\<close> for a refill: the Machine object itself is changed, for everyone who
  holds it.
\<close>

definition addStock :: "nat \<Rightarrow> int \<Rightarrow> World \<Rightarrow> World" where
  "addStock m d w =
     w\<lparr>machines := (machines w)
          (m := (machines w m)\<lparr>stockLevel := stockLevel (machines w m) + d\<rparr>)\<rparr>"

definition MachineSaleSubscriber_handle :: "nat \<Rightarrow> IEvent \<Rightarrow> World \<Rightarrow> World" where
  "MachineSaleSubscriber_handle a event w =
     (case findIndex (\<lambda>m. idM (machines w m) = machineId event) (machineArrays w a) of
        None \<Rightarrow> w
      | Some machineIndex \<Rightarrow>
          (case event of
             MachineSaleEvent sold mid \<Rightarrow> addStock (machineArrays w a ! machineIndex) (- sold) w
           | _ \<Rightarrow> w))"

definition MachineRefillSubscriber_handle :: "nat \<Rightarrow> IEvent \<Rightarrow> World \<Rightarrow> World" where
  "MachineRefillSubscriber_handle a event w =
     (case findIndex (\<lambda>m. idM (machines w m) = machineId event) (machineArrays w a) of
        None \<Rightarrow> w
      | Some machineIndex \<Rightarrow>
          (case event of
             MachineRefillEvent refill mid \<Rightarrow> addStock (machineArrays w a ! machineIndex) refill w
           | _ \<Rightarrow> w))"

text \<open>
  \<^verbatim>\<open>StockWarningSubscriber.handle\<close>: \<open>h\<close> is the address of the subscriber and \<open>tbl\<close>
  its map at the time of the call.
\<close>

definition StockWarningSubscriber_handle ::
  "nat \<Rightarrow> (string \<rightharpoonup> nat \<times> bool) \<Rightarrow> IEvent \<Rightarrow> World \<Rightarrow> result \<times> World" where
  "StockWarningSubscriber_handle h tbl event w =
     (case tbl (machineId event) of
        None \<Rightarrow> (Void, w)
      | Some (machine, warned) \<Rightarrow>
          if stockLevel (machines w machine) < 3 \<and> \<not> warned then
            (Single (LowStockWarningEvent (idM (machines w machine))),
             w\<lparr>objects := (objects w)
                  (h := StockWarningSubscriber (tbl(machineId event \<mapsto> (machine, True))))\<rparr>)
          else if stockLevel (machines w machine) \<ge> 3 \<and> warned then
            (Single (StockLevelOkEvent (idM (machines w machine))),
             w\<lparr>objects := (objects w)
                  (h := StockWarningSubscriber (tbl(machineId event \<mapsto> (machine, False))))\<rparr>)
          else (Void, w))"

section \<open>The router\<close>

text \<open>\<^verbatim>\<open>this._eventQueue.push(...)\<close>.\<close>

definition push :: "IEvent list \<Rightarrow> World \<Rightarrow> World" where
  "push es w = w\<lparr>eventQueue := eventQueue w @ es, enqueued := enqueued w @ es\<rparr>"

text \<open>
  \<^verbatim>\<open>if (result) { if (Array.isArray(result)) push(...result) else push(result) }\<close>:
  \<^verbatim>\<open>undefined\<close> is falsy, an event object and an array (also an empty one) are truthy.
\<close>

fun pushResult :: "result \<Rightarrow> World \<Rightarrow> World" where
  "pushResult Void w = w"
| "pushResult (Single e) w = push [e] w"
| "pushResult (Array es) w = push es w"

text \<open>
  \<^verbatim>\<open>subscribe\<close>: a type seen for the first time gets a new empty array; the handler is
  pushed on the array of the type, in place.
\<close>

definition subscribe :: "string \<Rightarrow> nat \<Rightarrow> World \<Rightarrow> World" where
  "subscribe ty handler w =
     (let w1 = (if subscribers w ty = None
                then w\<lparr>subscribers := (subscribers w)(ty \<mapsto> nextHandlerArray w),
                       handlerArrays := (handlerArrays w)(nextHandlerArray w := []),
                       nextHandlerArray := nextHandlerArray w + 1\<rparr>
                else w)
      in case subscribers w1 ty of
           None \<Rightarrow> w1
         | Some a \<Rightarrow> w1\<lparr>handlerArrays := (handlerArrays w1)(a := handlerArrays w1 a @ [handler])\<rparr>)"

text \<open>
  \<^verbatim>\<open>unsubscribe\<close>: nothing for a type that is not in the map; otherwise the map entry is
  set to the new array that \<^verbatim>\<open>filter\<close> returns, and the old array is left as it was.
\<close>

definition unsubscribe :: "string \<Rightarrow> nat \<Rightarrow> World \<Rightarrow> World" where
  "unsubscribe ty handler w =
     (case subscribers w ty of
        None \<Rightarrow> w
      | Some a \<Rightarrow>
          w\<lparr>subscribers := (subscribers w)(ty \<mapsto> nextHandlerArray w),
            handlerArrays := (handlerArrays w)
              (nextHandlerArray w := filter (\<lambda>h. h \<noteq> handler) (handlerArrays w a)),
            nextHandlerArray := nextHandlerArray w + 1\<rparr>)"

text \<open>
  Entering and leaving the \<^verbatim>\<open>while\<close> loop of \<^verbatim>\<open>publish\<close>. Entering is
  \<^verbatim>\<open>this._isPublishing = true\<close>; both also keep the history's count of drains under way.
  The loop is left when the queue is empty and when an exception passes through it.
\<close>

definition beginDrain :: "World \<Rightarrow> World" where
  "beginDrain w =
     w\<lparr>isPublishing := True,
       activeDrains := activeDrains w + 1,
       maxActiveDrains := max (maxActiveDrains w) (activeDrains w + 1)\<rparr>"

definition endDrain :: "World \<Rightarrow> World" where
  "endDrain w = w\<lparr>activeDrains := activeDrains w - 1\<rparr>"

text \<open>
  \<^verbatim>\<open>publish\<close>, its \<^verbatim>\<open>while\<close> loop, the \<^verbatim>\<open>for (const handler of handlers)\<close> loop inside
  it, the call \<^verbatim>\<open>handler.handle(currentEvent)\<close> and what a subscriber of another class
  does in it. A handler can call \<^verbatim>\<open>publish\<close> again, and either loop can run forever (a
  handler that returns an event of its own type; a handler that subscribes itself again
  each time it is called, since the \<^verbatim>\<open>for\<close> loop reads the array it iterates at every
  step). The first argument bounds the number of loop iterations: \<open>None\<close> says that the
  bound was reached. A result \<open>Inl (x, w)\<close> is the exception \<open>x\<close> thrown in state \<open>w\<close>;
  nothing in the program catches one.
\<close>

function (sequential) publish :: "nat \<Rightarrow> IEvent \<Rightarrow> World \<Rightarrow> (error \<times> World + World) option"
  and while_loop :: "nat \<Rightarrow> World \<Rightarrow> (error \<times> World + World) option"
  and for_loop :: "nat \<Rightarrow> nat \<Rightarrow> nat \<Rightarrow> IEvent \<Rightarrow> World \<Rightarrow> (error \<times> World + World) option"
  and handle :: "nat \<Rightarrow> nat \<Rightarrow> IEvent \<Rightarrow> World \<Rightarrow> (error \<times> World + result \<times> World) option"
  and perform :: "nat \<Rightarrow> action list \<Rightarrow> ending \<Rightarrow> World \<Rightarrow> (error \<times> World + result \<times> World) option"
where
  "publish n event w =
     (let w1 = push [event] w in
      if isPublishing w1 then Some (Inr w1)
      else
        (case while_loop n (beginDrain w1) of
           None \<Rightarrow> None
         | Some (Inl (x, w2)) \<Rightarrow> Some (Inl (x, endDrain w2))
         | Some (Inr w2) \<Rightarrow> Some (Inr ((endDrain w2)\<lparr>isPublishing := False\<rparr>))))"
| "while_loop 0 w = None"
| "while_loop (Suc n) w =
     (case eventQueue w of
        [] \<Rightarrow> Some (Inr w)
      | currentEvent # rest \<Rightarrow>
          (let w1 = w\<lparr>eventQueue := rest, dequeued := dequeued w @ [currentEvent]\<rparr> in
           case subscribers w1 (type_of currentEvent) of
             None \<Rightarrow> while_loop n w1
           | Some handlers \<Rightarrow>
               (case for_loop n handlers 0 currentEvent w1 of
                  None \<Rightarrow> None
                | Some (Inl x) \<Rightarrow> Some (Inl x)
                | Some (Inr w2) \<Rightarrow> while_loop n w2)))"
| "for_loop 0 handlers i currentEvent w = None"
| "for_loop (Suc n) handlers i currentEvent w =
     (if i < length (handlerArrays w handlers) then
        (let handler = handlerArrays w handlers ! i in
         case handle n handler currentEvent
                (w\<lparr>handled := handled w @ [(handler, currentEvent)]\<rparr>) of
           None \<Rightarrow> None
         | Some (Inl x) \<Rightarrow> Some (Inl x)
         | Some (Inr (result, w1)) \<Rightarrow>
             for_loop n handlers (i + 1) currentEvent (pushResult result w1))
      else Some (Inr w))"
| "handle n h event w =
     (case objects w h of
        MachineSaleSubscriber a \<Rightarrow> Some (Inr (Void, MachineSaleSubscriber_handle a event w))
      | MachineRefillSubscriber a \<Rightarrow> Some (Inr (Void, MachineRefillSubscriber_handle a event w))
      | StockWarningSubscriber tbl \<Rightarrow> Some (Inr (StockWarningSubscriber_handle h tbl event w))
      | StockLoggerSubscriber a \<Rightarrow> Some (Inr (Void, w))
      | OtherSubscriber f \<Rightarrow> perform n (fst (f event)) (snd (f event)) w)"
| "perform n [] fin w =
     (case fin of
        Return r \<Rightarrow> Some (Inr (r, w))
      | Throw msg \<Rightarrow> Some (Inl (HandlerError msg, w)))"
| "perform n (CallPublish e # acts) fin w =
     (case publish n e w of
        None \<Rightarrow> None
      | Some (Inl x) \<Rightarrow> Some (Inl x)
      | Some (Inr w1) \<Rightarrow> perform n acts fin w1)"
| "perform n (CallSubscribe ty h # acts) fin w = perform n acts fin (subscribe ty h w)"
| "perform n (CallUnsubscribe ty h # acts) fin w = perform n acts fin (unsubscribe ty h w)"
  by pat_completeness auto

text \<open>
  Every call either has less fuel, or the same fuel and goes down in the order
  \<open>handle\<close>, \<open>perform\<close>, \<open>publish\<close>, \<open>while_loop\<close>, or is \<open>perform\<close> on a shorter list
  of actions.
\<close>

termination
  by (relation "measures
        [case_sum (case_sum (\<lambda>p. fst p) (\<lambda>p. fst p))
           (case_sum (\<lambda>p. fst p) (case_sum (\<lambda>p. fst p) (\<lambda>p. fst p))),
         case_sum (case_sum (\<lambda>p. 1) (\<lambda>p. 0))
           (case_sum (\<lambda>p. 0) (case_sum (\<lambda>p. 3) (\<lambda>p. 2))),
         case_sum (\<lambda>p. 0)
           (case_sum (\<lambda>p. 0) (case_sum (\<lambda>p. 0) (\<lambda>p. length (fst (snd p)))))]")
     auto

section \<open>Reading a run\<close>

text \<open>
  The state in which a run ended, whether it returned or threw; the state and the value
  of a run that returned; the state and the exception of a run that threw.
\<close>

definition finalWorld :: "error \<times> World + World \<Rightarrow> World" where
  "finalWorld r = (case r of Inl (x, w) \<Rightarrow> w | Inr w \<Rightarrow> w)"

definition handlerWorld :: "error \<times> World + result \<times> World \<Rightarrow> World" where
  "handlerWorld r = (case r of Inl (x, w) \<Rightarrow> w | Inr (res, w) \<Rightarrow> w)"

definition returned :: "('e + 'a) option \<Rightarrow> 'a option" where
  "returned r = (case r of Some (Inr a) \<Rightarrow> Some a | _ \<Rightarrow> None)"



definition stockOf :: "nat \<Rightarrow> World \<Rightarrow> int" where
  "stockOf m w = stockLevel (machines w m)"

text \<open>
  Top-level calls of \<^verbatim>\<open>publish\<close> one after the other, as in
  \<^verbatim>\<open>events.forEach((e) => pubSubService.publish(e))\<close>; an exception ends the sequence.
\<close>

fun publishAll :: "nat \<Rightarrow> IEvent list \<Rightarrow> World \<Rightarrow> (error \<times> World + World) option" where
  "publishAll n [] w = Some (Inr w)"
| "publishAll n (e # es) w =
     (case publish n e w of
        None \<Rightarrow> None
      | Some (Inl x) \<Rightarrow> Some (Inl x)
      | Some (Inr w1) \<Rightarrow> publishAll n es w1)"

section \<open>Notions used in the properties\<close>

text \<open>
  The handlers that \<^verbatim>\<open>this._subscribers.get(type) || []\<close> yields for a type.
\<close>

definition registered :: "World \<Rightarrow> string \<Rightarrow> nat list" where
  "registered w ty = (case subscribers w ty of None \<Rightarrow> [] | Some a \<Rightarrow> handlerArrays w a)"

text \<open>
  Every array of the registry has been allocated: the next fresh array is a new one.
\<close>

definition allocated :: "World \<Rightarrow> bool" where
  "allocated w = (\<forall>ty a. subscribers w ty = Some a \<longrightarrow> a < nextHandlerArray w)"

text \<open>
  The scope of a subscriber of one of the four classes: the Machine object \<open>m\<close> is in
  it (\<open>inScope\<close>), some machine with the id \<open>mid\<close> is in it (\<open>knowsId\<close>). The map of the
  stock-warning subscriber is keyed by the id.
\<close>

definition inScope :: "World \<Rightarrow> nat \<Rightarrow> nat \<Rightarrow> bool" where
  "inScope w h m =
     (case objects w h of
        MachineSaleSubscriber a \<Rightarrow> m \<in> set (machineArrays w a)
      | MachineRefillSubscriber a \<Rightarrow> m \<in> set (machineArrays w a)
      | StockWarningSubscriber tbl \<Rightarrow>
          (case tbl (idM (machines w m)) of None \<Rightarrow> False | Some (m', warned) \<Rightarrow> m' = m)
      | StockLoggerSubscriber a \<Rightarrow> m \<in> set (machineArrays w a)
      | OtherSubscriber f \<Rightarrow> False)"

definition knowsId :: "World \<Rightarrow> nat \<Rightarrow> string \<Rightarrow> bool" where
  "knowsId w h mid =
     (case objects w h of
        MachineSaleSubscriber a \<Rightarrow> mid \<in> set (map (\<lambda>m. idM (machines w m)) (machineArrays w a))
      | MachineRefillSubscriber a \<Rightarrow> mid \<in> set (map (\<lambda>m. idM (machines w m)) (machineArrays w a))
      | StockWarningSubscriber tbl \<Rightarrow> tbl mid \<noteq> None
      | StockLoggerSubscriber a \<Rightarrow> mid \<in> set (map (\<lambda>m. idM (machines w m)) (machineArrays w a))
      | OtherSubscriber f \<Rightarrow> False)"

fun isOther :: "ISubscriber \<Rightarrow> bool" where
  "isOther (OtherSubscriber f) = True"
| "isOther _ = False"

text \<open>Every subscriber object is of one of the four classes of the program.\<close>

definition ownClasses :: "World \<Rightarrow> bool" where
  "ownClasses w = (\<forall>h. \<not> isOther (objects w h))"

text \<open>
  The subscriber \<open>h\<close> changes a stock level when it handles \<open>e\<close>: a sale subscriber on a
  \<^verbatim>\<open>MachineSaleEvent\<close>, a refill subscriber on a \<^verbatim>\<open>MachineRefillEvent\<close>, for an id in
  its scope. An event is \<open>harmless\<close> when no handler registered for its type does.
\<close>

definition mutates :: "World \<Rightarrow> nat \<Rightarrow> IEvent \<Rightarrow> bool" where
  "mutates w h e =
     (case objects w h of
        MachineSaleSubscriber a \<Rightarrow>
          (case e of MachineSaleEvent sold mid \<Rightarrow> knowsId w h mid | _ \<Rightarrow> False)
      | MachineRefillSubscriber a \<Rightarrow>
          (case e of MachineRefillEvent refill mid \<Rightarrow> knowsId w h mid | _ \<Rightarrow> False)
      | _ \<Rightarrow> False)"

definition harmless :: "World \<Rightarrow> IEvent \<Rightarrow> bool" where
  "harmless w e = (\<forall>h\<in>set (registered w (type_of e)). \<not> mutates w h e)"

text \<open>What the stock-warning subscriber can return.\<close>

fun derived :: "result \<Rightarrow> bool" where
  "derived Void = True"
| "derived (Single (LowStockWarningEvent mid)) = True"
| "derived (Single (StockLevelOkEvent mid)) = True"
| "derived _ = False"

text \<open>
  Between two states the machines, the machine arrays and the registry are the same, and
  every subscriber object is of the class it was, a sale or refill subscriber on the
  array it had.
\<close>

definition static :: "World \<Rightarrow> World \<Rightarrow> bool" where
  "static w w' =
     (machines w' = machines w \<and> machineArrays w' = machineArrays w \<and>
      subscribers w' = subscribers w \<and> handlerArrays w' = handlerArrays w \<and>
      (\<forall>h. (\<forall>a. objects w' h = MachineSaleSubscriber a \<longleftrightarrow> objects w h = MachineSaleSubscriber a) \<and>
           (\<forall>a. objects w' h = MachineRefillSubscriber a \<longleftrightarrow> objects w h = MachineRefillSubscriber a) \<and>
           (isOther (objects w' h) \<longleftrightarrow> isOther (objects w h))))"




text \<open>
  No two types share an array of the registry: \<^verbatim>\<open>subscribe\<close> and \<^verbatim>\<open>unsubscribe\<close>
  give a type an array of its own.
\<close>

definition separate :: "World \<Rightarrow> bool" where
  "separate w =
     (\<forall>ty ty' a. subscribers w ty = Some a \<and> subscribers w ty' = Some a \<longrightarrow> ty = ty')"

text \<open>
  The array \<open>a\<close> is being iterated for an event of type \<open>ty0\<close>: the flag is up, the array
  exists and no other type has it in the registry. It is \<open>detached\<close> once the registry
  has another array, or none, for \<open>ty0\<close>.
\<close>

definition iterating :: "nat \<Rightarrow> string \<Rightarrow> World \<Rightarrow> bool" where
  "iterating a ty0 w =
     (isPublishing w \<and> a < nextHandlerArray w \<and>
      (\<forall>ty. subscribers w ty = Some a \<longrightarrow> ty = ty0))"

definition detached :: "nat \<Rightarrow> string \<Rightarrow> World \<Rightarrow> bool" where
  "detached a ty0 w = (subscribers w ty0 \<noteq> Some a)"

text \<open>
  The calls of one handler on the router, read in their order while an event of type
  \<open>ty0\<close> is dispatched; \<open>d\<close> tells whether \<^verbatim>\<open>unsubscribe\<close> has been called for \<open>ty0\<close>
  earlier in this dispatch. The calls are \<open>safeActs\<close> when every \<^verbatim>\<open>subscribe\<close> among
  them is for another type or comes after an \<^verbatim>\<open>unsubscribe\<close> for \<open>ty0\<close>; \<open>detaches\<close>
  tells whether an \<^verbatim>\<open>unsubscribe\<close> for \<open>ty0\<close> is among them.
\<close>

fun safeActs :: "string \<Rightarrow> bool \<Rightarrow> action list \<Rightarrow> bool" where
  "safeActs ty0 d [] = True"
| "safeActs ty0 d (CallPublish e # acts) = safeActs ty0 d acts"
| "safeActs ty0 d (CallSubscribe ty h # acts) = ((ty \<noteq> ty0 \<or> d) \<and> safeActs ty0 d acts)"
| "safeActs ty0 d (CallUnsubscribe ty h # acts) = safeActs ty0 (d \<or> ty = ty0) acts"

fun detaches :: "string \<Rightarrow> action list \<Rightarrow> bool" where
  "detaches ty0 [] = False"
| "detaches ty0 (CallUnsubscribe ty h # acts) = (ty = ty0 \<or> detaches ty0 acts)"
| "detaches ty0 (act # acts) = detaches ty0 acts"

text \<open>
  The same for a subscriber on the event \<open>e\<close>: a subscriber of the four classes calls
  nothing on the router and returns; another one is a \<open>safeHandler\<close> when it returns and
  its calls are \<open>safeActs\<close>. \<open>safeHandlers\<close> reads the handlers of an array in their
  order, \<open>d\<close> going from each to the next.
\<close>

definition safeHandler :: "string \<Rightarrow> IEvent \<Rightarrow> bool \<Rightarrow> ISubscriber \<Rightarrow> bool" where
  "safeHandler ty0 e d obj =
     (case obj of
        OtherSubscriber f \<Rightarrow>
          (case snd (f e) of Return res \<Rightarrow> True | Throw msg \<Rightarrow> False) \<and>
          safeActs ty0 d (fst (f e))
      | _ \<Rightarrow> True)"

definition detachesHandler :: "string \<Rightarrow> IEvent \<Rightarrow> ISubscriber \<Rightarrow> bool" where
  "detachesHandler ty0 e obj =
     (case obj of OtherSubscriber f \<Rightarrow> detaches ty0 (fst (f e)) | _ \<Rightarrow> False)"

fun safeHandlers :: "World \<Rightarrow> string \<Rightarrow> IEvent \<Rightarrow> bool \<Rightarrow> nat list \<Rightarrow> bool" where
  "safeHandlers w ty0 e d [] = True"
| "safeHandlers w ty0 e d (h # hs) =
     (safeHandler ty0 e d (objects w h) \<and>
      safeHandlers w ty0 e (d \<or> detachesHandler ty0 e (objects w h)) hs)"

text \<open>
  From \<open>w\<close> to \<open>w'\<close> the array \<open>a\<close> is still being iterated and has the elements it had,
  it is still detached if it was, and the subscribers of other classes are the same
  objects.
\<close>

definition held :: "nat \<Rightarrow> string \<Rightarrow> World \<Rightarrow> World \<Rightarrow> bool" where
  "held a ty0 w w' =
     (iterating a ty0 w' \<and> handlerArrays w' a = handlerArrays w a \<and>
      (detached a ty0 w \<longrightarrow> detached a ty0 w') \<and>
      (\<forall>h. isOther (objects w h) \<longrightarrow> objects w' h = objects w h) \<and>
      (\<forall>h. isOther (objects w' h) \<longrightarrow> isOther (objects w h)))"

section \<open>Programs\<close>

text \<open>
  The state that the main program of the repository builds before it wires the router:
  the machines \<^verbatim>\<open>001\<close>, \<^verbatim>\<open>002\<close>, \<^verbatim>\<open>003\<close> in one array, on which the sale subscriber
  (object 0), the refill subscriber (1), the stock-warning subscriber (2) and the logger
  (3) are built, and an empty router. Here the stock level and the warning flag of
  machine \<^verbatim>\<open>001\<close> are parameters, there is a second Machine object with the id
  \<^verbatim>\<open>001\<close> that belongs to no array (object 3 of the machines), and a second sale
  subscriber on the same array (object 4).
\<close>

definition fleet :: "int \<Rightarrow> bool \<Rightarrow> World" where
  "fleet level warned =
     \<lparr>machines = (\<lambda>_. \<lparr>stockLevel = 10, idM = ''''\<rparr>)
         (0 := \<lparr>stockLevel = level, idM = ''001''\<rparr>,
          1 := \<lparr>stockLevel = 10, idM = ''002''\<rparr>,
          2 := \<lparr>stockLevel = 10, idM = ''003''\<rparr>,
          3 := \<lparr>stockLevel = 10, idM = ''001''\<rparr>),
      machineArrays = (\<lambda>_. [])(0 := [0, 1, 2]),
      nextMachineArray = 1,
      objects = (\<lambda>_. StockLoggerSubscriber 0)
         (0 := MachineSaleSubscriber 0,
          1 := MachineRefillSubscriber 0,
          2 := StockWarningSubscriber
                 [''001'' \<mapsto> (0, warned), ''002'' \<mapsto> (1, False), ''003'' \<mapsto> (2, False)],
          3 := StockLoggerSubscriber 0,
          4 := MachineSaleSubscriber 0),
      handlerArrays = (\<lambda>_. []),
      nextHandlerArray = 0,
      subscribers = Map.empty,
      eventQueue = [],
      isPublishing = False,
      enqueued = [],
      dequeued = [],
      handled = [],
      activeDrains = 0,
      maxActiveDrains = 0\<rparr>"

text \<open>The six \<^verbatim>\<open>subscribe\<close> calls of the main program, in its order.\<close>

definition wired :: "World \<Rightarrow> World" where
  "wired w =
     subscribe ''stock_level_ok'' 3
       (subscribe ''low_stock_warning'' 3
         (subscribe ''refill'' 2
           (subscribe ''sale'' 2
             (subscribe ''refill'' 1
               (subscribe ''sale'' 0 w)))))"

text \<open>
  Programs with subscribers of other classes, on three events of types of their own.
  In \<open>relayEarly\<close> one handler of \<^verbatim>\<open>A\<close> publishes \<^verbatim>\<open>B\<close> and then returns \<^verbatim>\<open>C\<close>; in
  \<open>relayLate\<close> the first handler of \<^verbatim>\<open>A\<close> returns \<^verbatim>\<open>C\<close> and the second one publishes
  \<^verbatim>\<open>B\<close>. In \<open>thrower\<close> the handler of \<^verbatim>\<open>A\<close> throws and \<^verbatim>\<open>B\<close> has a handler that
  returns; \<open>stuck\<close> is the state in which \<^verbatim>\<open>publish\<close> of \<^verbatim>\<open>A\<close> leaves it. In
  \<open>leaver\<close> the first handler of \<^verbatim>\<open>A\<close> unsubscribes the second one; in \<open>rejoiner\<close> it
  unsubscribes the second one and then subscribes it again; in \<open>resubscriber\<close> it
  subscribes the second one once more and then unsubscribes itself. In \<open>twoSellers\<close>
  two sale subscribers on the same machines are subscribed to \<^verbatim>\<open>sale\<close>.
\<close>

definition evA :: IEvent where "evA = OtherEvent ''A'' ''001''"



definition custom :: "(nat \<Rightarrow> ISubscriber) \<Rightarrow> World" where
  "custom objs = (fleet 10 False)\<lparr>objects := objs\<rparr>"

definition silent :: ISubscriber where
  "silent = OtherSubscriber (\<lambda>e. ([], Return Void))"





definition leaver :: World where
  "leaver =
     subscribe ''A'' 1 (subscribe ''A'' 0 (custom ((\<lambda>_. silent)
        (0 := OtherSubscriber (\<lambda>e. ([CallUnsubscribe ''A'' 1], Return Void))))))"

definition rejoiner :: World where
  "rejoiner =
     subscribe ''A'' 1 (subscribe ''A'' 0 (custom ((\<lambda>_. silent)
        (0 := OtherSubscriber
                (\<lambda>e. ([CallUnsubscribe ''A'' 1, CallSubscribe ''A'' 1], Return Void))))))"

definition resubscriber :: World where
  "resubscriber =
     subscribe ''A'' 1 (subscribe ''A'' 0 (custom ((\<lambda>_. silent)
        (0 := OtherSubscriber
                (\<lambda>e. ([CallSubscribe ''A'' 1, CallUnsubscribe ''A'' 0], Return Void))))))"

definition twoSellers :: World where
  "twoSellers = subscribe ''sale'' 4 (subscribe ''sale'' 0 (fleet 10 False))"

section \<open>Lemmas\<close>

subsection \<open>Results of runs and the two cases of publish\<close>

lemma finalWorld_simps [simp]:
  "finalWorld (Inl (x, w)) = w" "finalWorld (Inr w) = w"
  by (simp_all add: finalWorld_def)

lemma handlerWorld_simps [simp]:
  "handlerWorld (Inl (x, w)) = w" "handlerWorld (Inr (res, w)) = w"
  by (simp_all add: handlerWorld_def)

lemma isPublishing_push [simp]: "isPublishing (push es w) = isPublishing w"
  by (simp add: push_def)

lemma publish_busy: "isPublishing w \<Longrightarrow> publish n e w = Some (Inr (push [e] w))"
  by (simp add: Let_def)

lemma publish_idle:
  "\<not> isPublishing w \<Longrightarrow>
     publish n e w =
       (case while_loop n (beginDrain (push [e] w)) of
          None \<Rightarrow> None
        | Some (Inl (x, w2)) \<Rightarrow> Some (Inl (x, endDrain w2))
        | Some (Inr w2) \<Rightarrow> Some (Inr ((endDrain w2)\<lparr>isPublishing := False\<rparr>)))"
  by (simp add: Let_def)

declare publish.simps [simp del]

subsection \<open>Every step of a run\<close>

lemma steps_preserve:
  fixes R :: "World \<Rightarrow> World \<Rightarrow> bool"
  assumes rfl: "\<And>w. R w w"
    and trn: "\<And>a b c. R a b \<Longrightarrow> R b c \<Longrightarrow> R a c"
    and push: "\<And>es w. R w (push es w)"
    and normal: "\<And>w w'. \<not> isPublishing w \<Longrightarrow> R (beginDrain w) w' \<Longrightarrow>
        R w ((endDrain w')\<lparr>isPublishing := False\<rparr>)"
    and raised: "\<And>w w'. \<not> isPublishing w \<Longrightarrow> R (beginDrain w) w' \<Longrightarrow> R w (endDrain w')"
    and shift: "\<And>w e rest. eventQueue w = e # rest \<Longrightarrow>
        R w (w\<lparr>eventQueue := rest, dequeued := dequeued w @ [e]\<rparr>)"
    and log: "\<And>w x. R w (w\<lparr>handled := handled w @ [x]\<rparr>)"
    and sale: "\<And>a e w. R w (MachineSaleSubscriber_handle a e w)"
    and refill: "\<And>a e w. R w (MachineRefillSubscriber_handle a e w)"
    and warning: "\<And>h tbl e w. objects w h = StockWarningSubscriber tbl \<Longrightarrow>
        R w (snd (StockWarningSubscriber_handle h tbl e w))"
    and sub: "\<And>ty h w. R w (subscribe ty h w)"
    and unsub: "\<And>ty h w. R w (unsubscribe ty h w)"
  shows "publish n e w = Some r1 \<longrightarrow> R w (finalWorld r1)"
    and "while_loop n w = Some r2 \<longrightarrow> R w (finalWorld r2)"
    and "for_loop n a i e w = Some r3 \<longrightarrow> R w (finalWorld r3)"
    and "handle n h e w = Some r4 \<longrightarrow> R w (handlerWorld r4)"
    and "perform n acts fin w = Some r5 \<longrightarrow> R w (handlerWorld r5)"
proof (induction n e w and n w and n a i e w and n h e w and n acts fin w
       arbitrary: r1 and r2 and r3 and r4 and r5
       rule: publish_while_loop_for_loop_handle_perform.induct)
  case (1 n event w)
  show ?case
  proof (cases "isPublishing w")
    case True
    then show ?thesis using push [of w "[event]"] by (auto simp: publish_busy)
  next
    case False
    let ?w1 = "push [event] w"
    have np: "\<not> isPublishing ?w1" using False by simp
    show ?thesis
    proof (cases "while_loop n (beginDrain ?w1)")
      case None
      then show ?thesis using False by (simp add: publish_idle)
    next
      case (Some r)
      have b: "R (beginDrain ?w1) (finalWorld r)" using "1.IH" [OF refl np] Some by blast
      show ?thesis
      proof (cases r)
        case (Inl xw)
        obtain x w' where xw: "xw = (x, w')" by (cases xw)
        have "publish n event w = Some (Inl (x, endDrain w'))"
          using False Some Inl xw by (simp add: publish_idle)
        moreover have "finalWorld r = w'" using Inl xw by simp
        then have "R w (endDrain w')"
          using trn [OF push [of w "[event]"] raised [OF np, of w']] b by simp
        ultimately show ?thesis by auto
      next
        case (Inr w')
        have "publish n event w = Some (Inr ((endDrain w')\<lparr>isPublishing := False\<rparr>))"
          using False Some Inr by (simp add: publish_idle)
        moreover have "finalWorld r = w'" using Inr by simp
        then have "R w ((endDrain w')\<lparr>isPublishing := False\<rparr>)"
          using trn [OF push [of w "[event]"] normal [OF np, of w']] b by simp
        ultimately show ?thesis by auto
      qed
    qed
  qed
next
  case (2 w)
  then show ?case by simp
next
  case (3 n w)
  show ?case
  proof (cases "eventQueue w")
    case Nil
    then show ?thesis using rfl by auto
  next
    case (Cons ev rest)
    let ?w1 = "w\<lparr>eventQueue := rest, dequeued := dequeued w @ [ev]\<rparr>"
    have a: "R w ?w1" using shift [OF Cons] .
    show ?thesis
    proof (cases "subscribers w (type_of ev)")
      case None
      then have "while_loop (Suc n) w = while_loop n ?w1" using Cons by simp
      moreover have "while_loop n ?w1 = Some r2 \<longrightarrow> R ?w1 (finalWorld r2)"
        using "3.IH"(1) [OF Cons refl] None by simp
      ultimately show ?thesis using a trn by auto
    next
      case (Some arr)
      have s: "subscribers ?w1 (type_of ev) = Some arr" using Some by simp
      show ?thesis
      proof
        assume p: "while_loop (Suc n) w = Some r2"
        then obtain r where r: "for_loop n arr 0 ev ?w1 = Some r"
          using Cons Some by (auto split: option.splits)
        have b: "R ?w1 (finalWorld r)" using "3.IH"(2) [OF Cons refl s] r by blast
        show "R w (finalWorld r2)"
        proof (cases r)
          case (Inl xw)
          then have "r2 = r" using p r Cons Some by simp
          then show ?thesis using a b trn by blast
        next
          case (Inr w')
          then have "while_loop n w' = Some r2" using p r Cons Some by simp
          then have "R w' (finalWorld r2)" using "3.IH"(3) [OF Cons refl s r Inr] by blast
          then show ?thesis using a b Inr trn by (metis finalWorld_simps(2))
        qed
      qed
    qed
  qed
next
  case (4 handlers i currentEvent w)
  then show ?case by simp
next
  case (5 n handlers i currentEvent w)
  show ?case
  proof (cases "i < length (handlerArrays w handlers)")
    case False
    then show ?thesis using rfl by auto
  next
    case True
    let ?h = "handlerArrays w handlers ! i"
    let ?w1 = "w\<lparr>handled := handled w @ [(?h, currentEvent)]\<rparr>"
    have a: "R w ?w1" using log .
    show ?thesis
    proof
      assume p: "for_loop (Suc n) handlers i currentEvent w = Some r3"
      then obtain r where r: "handle n ?h currentEvent ?w1 = Some r"
        using True by (auto simp: Let_def split: option.splits)
      have b: "R ?w1 (handlerWorld r)" using "5.IH"(1) [OF True refl] r by blast
      show "R w (finalWorld r3)"
      proof (cases r)
        case (Inl xw)
        then have "r3 = Inl xw" using p r True by (simp add: Let_def)
        then show ?thesis using a b Inl trn by (cases xw) fastforce
      next
        case (Inr rw)
        obtain res w' where rw: "rw = (res, w')" by (cases rw)
        then have "for_loop n handlers (i + 1) currentEvent (pushResult res w') = Some r3"
          using p r True Inr by (simp add: Let_def)
        then have c: "R (pushResult res w') (finalWorld r3)"
          using "5.IH"(2) [OF True refl r Inr rw [symmetric]] by blast
        have d: "R w' (pushResult res w')"
          using push rfl by (cases res) auto
        show ?thesis using a b c d Inr rw trn by (metis handlerWorld_simps(2))
      qed
    qed
  qed
next
  case (6 n h event w)
  show ?case
  proof (cases "objects w h")
    case (MachineSaleSubscriber a)
    then show ?thesis using sale by auto
  next
    case (MachineRefillSubscriber a)
    then show ?thesis using refill by auto
  next
    case (StockWarningSubscriber tbl)
    then show ?thesis using warning [OF StockWarningSubscriber, of event]
      by (cases "StockWarningSubscriber_handle h tbl event w") auto
  next
    case (StockLoggerSubscriber a)
    then show ?thesis using rfl by auto
  next
    case (OtherSubscriber f)
    then show ?thesis using "6.IH" [OF OtherSubscriber] by simp
  qed
next
  case (7 n fin w)
  then show ?case using rfl by (cases fin) auto
next
  case (8 n e acts fin w)
  show ?case
  proof
    assume p: "perform n (CallPublish e # acts) fin w = Some r5"
    then obtain r where r: "publish n e w = Some r"
      by (auto split: option.splits)
    have b: "R w (finalWorld r)" using "8.IH"(1) r by blast
    show "R w (handlerWorld r5)"
    proof (cases r)
      case (Inl xw)
      then have "r5 = Inl xw" using p r by simp
      then show ?thesis using b Inl by (cases xw) auto
    next
      case (Inr w')
      then have "perform n acts fin w' = Some r5" using p r by simp
      then have "R w' (handlerWorld r5)" using "8.IH"(2) [OF r Inr] by blast
      then show ?thesis using b Inr trn by (metis finalWorld_simps(2))
    qed
  qed
next
  case (9 n ty h acts fin w)
  then show ?case using sub trn by (metis perform.simps(3))
next
  case (10 n ty h acts fin w)
  then show ?case using unsub trn by (metis perform.simps(4))
qed

subsection \<open>The subscribers of the four classes\<close>

lemma findIndex_None: "(findIndex P xs = None) = (\<forall>x\<in>set xs. \<not> P x)"
  by (induction xs) auto

lemma findIndex_Some:
  "findIndex P xs = Some i \<Longrightarrow> i < length xs \<and> P (xs ! i)"
  by (induction xs arbitrary: i) (auto split: if_splits)

lemma findIndex_filter:
  "findIndex P xs = Some i \<Longrightarrow> (\<And>x. P x \<Longrightarrow> Q x) \<Longrightarrow>
     \<exists>j. findIndex P (filter Q xs) = Some j \<and> filter Q xs ! j = xs ! i"
  by (induction xs arbitrary: i) (auto split: if_splits)

lemma findIndex_unknown:
  "mid \<notin> (\<lambda>m. idM (machines w m)) ` set xs \<Longrightarrow>
     findIndex (\<lambda>m. idM (machines w m) = mid) xs = None"
  by (auto simp: findIndex_None)

lemma handle_unknown:
  assumes "\<not> isOther (objects w h)" and "\<not> knowsId w h (machineId e)"
  shows "handle n h e w = Some (Inr (Void, w))"
  using assms
  by (cases "objects w h")
     (auto simp: knowsId_def MachineSaleSubscriber_handle_def MachineRefillSubscriber_handle_def
        StockWarningSubscriber_handle_def findIndex_unknown split: option.splits)

lemma publish_no_handlers:
  assumes "\<not> isPublishing w" and "eventQueue w = []" and "registered w (type_of e) = []"
  shows "publish (Suc (Suc n)) e w =
     Some (Inr (w\<lparr>enqueued := enqueued w @ [e], dequeued := dequeued w @ [e],
                 maxActiveDrains := max (maxActiveDrains w) (activeDrains w + 1)\<rparr>))"
  using assms
  by (auto simp: publish_idle registered_def push_def beginDrain_def endDrain_def Let_def
        split: option.splits)

lemma handle_sale_removed:
  assumes "objects w h = MachineSaleSubscriber a"
  shows "handle n h (MachineSaleEvent q (idM (machines w m))) (removeMachine h m w) =
           Some (Inr (Void, removeMachine h m w))"
  using assms
  by (auto simp: removeMachine_def filterMachines_def MachineSaleSubscriber_handle_def
        split: option.splits dest!: findIndex_Some nth_mem)

lemma removeMachine_registry:
  "subscribers (removeMachine h m w) = subscribers w \<and>
   handlerArrays (removeMachine h m w) = handlerArrays w \<and>
   machines (removeMachine h m w) = machines w"
  by (cases "objects w h") (simp_all add: removeMachine_def filterMachines_def)

lemma handle_sale_kept:
  assumes "objects w h = MachineSaleSubscriber a"
    and "findIndex (\<lambda>x. idM (machines w x) = mid) (machineArrays w a) = Some i"
    and "mid \<noteq> idM (machines w m)"
  shows "handle n h (MachineSaleEvent q mid) (removeMachine h m w) =
           Some (Inr (Void, addStock (machineArrays w a ! i) (- q) (removeMachine h m w)))"
proof -
  let ?Q = "\<lambda>x. idM (machines w x) \<noteq> idM (machines w m)"
  from findIndex_filter [OF assms(2), of ?Q] assms(3)
  obtain j where j: "findIndex (\<lambda>x. idM (machines w x) = mid) (filter ?Q (machineArrays w a)) = Some j"
    "filter ?Q (machineArrays w a) ! j = machineArrays w a ! i"
    by auto
  show ?thesis
    using assms(1) j
    by (simp add: removeMachine_def filterMachines_def MachineSaleSubscriber_handle_def)
qed

lemma inScope_removeMachine:
  "inScope (removeMachine h m2 w) h m =
     (inScope w h m \<and> idM (machines w m) \<noteq> idM (machines w m2))"
  by (cases "objects w h")
     (auto simp: inScope_def removeMachine_def filterMachines_def split: option.splits)

lemma warning_low:
  assumes "objects w h = StockWarningSubscriber tbl"
    and "tbl (machineId e) = Some (m, warned)"
  shows "(handle n h e w =
            Some (Inr (Single (LowStockWarningEvent (idM (machines w m))),
                       w\<lparr>objects := (objects w)
                           (h := StockWarningSubscriber (tbl(machineId e \<mapsto> (m, True))))\<rparr>)))
         = (stockLevel (machines w m) < 3 \<and> \<not> warned)"
  using assms by (auto simp: StockWarningSubscriber_handle_def)

lemma warning_ok:
  assumes "objects w h = StockWarningSubscriber tbl"
    and "tbl (machineId e) = Some (m, warned)"
  shows "(handle n h e w =
            Some (Inr (Single (StockLevelOkEvent (idM (machines w m))),
                       w\<lparr>objects := (objects w)
                           (h := StockWarningSubscriber (tbl(machineId e \<mapsto> (m, False))))\<rparr>)))
         = (stockLevel (machines w m) \<ge> 3 \<and> warned)"
  using assms by (auto simp: StockWarningSubscriber_handle_def)

lemma warning_same_side:
  assumes "objects w h = StockWarningSubscriber tbl"
    and "tbl (machineId e) = Some (m, warned)"
    and "warned = (stockLevel (machines w m) < 3)"
  shows "handle n h e w = Some (Inr (Void, w))"
  using assms by (auto simp: StockWarningSubscriber_handle_def)

subsection \<open>What the steps leave alone\<close>

lemma sale_router [simp]:
  "eventQueue (MachineSaleSubscriber_handle a e w) = eventQueue w"
  "enqueued (MachineSaleSubscriber_handle a e w) = enqueued w"
  "dequeued (MachineSaleSubscriber_handle a e w) = dequeued w"
  "handled (MachineSaleSubscriber_handle a e w) = handled w"
  "isPublishing (MachineSaleSubscriber_handle a e w) = isPublishing w"
  "activeDrains (MachineSaleSubscriber_handle a e w) = activeDrains w"
  "maxActiveDrains (MachineSaleSubscriber_handle a e w) = maxActiveDrains w"
  "subscribers (MachineSaleSubscriber_handle a e w) = subscribers w"
  "handlerArrays (MachineSaleSubscriber_handle a e w) = handlerArrays w"
  "nextHandlerArray (MachineSaleSubscriber_handle a e w) = nextHandlerArray w"
  "objects (MachineSaleSubscriber_handle a e w) = objects w"
  "machineArrays (MachineSaleSubscriber_handle a e w) = machineArrays w"
  by (simp_all add: MachineSaleSubscriber_handle_def addStock_def
        split: option.splits IEvent.splits)

lemma refill_router [simp]:
  "eventQueue (MachineRefillSubscriber_handle a e w) = eventQueue w"
  "enqueued (MachineRefillSubscriber_handle a e w) = enqueued w"
  "dequeued (MachineRefillSubscriber_handle a e w) = dequeued w"
  "handled (MachineRefillSubscriber_handle a e w) = handled w"
  "isPublishing (MachineRefillSubscriber_handle a e w) = isPublishing w"
  "activeDrains (MachineRefillSubscriber_handle a e w) = activeDrains w"
  "maxActiveDrains (MachineRefillSubscriber_handle a e w) = maxActiveDrains w"
  "subscribers (MachineRefillSubscriber_handle a e w) = subscribers w"
  "handlerArrays (MachineRefillSubscriber_handle a e w) = handlerArrays w"
  "nextHandlerArray (MachineRefillSubscriber_handle a e w) = nextHandlerArray w"
  "objects (MachineRefillSubscriber_handle a e w) = objects w"
  "machineArrays (MachineRefillSubscriber_handle a e w) = machineArrays w"
  by (simp_all add: MachineRefillSubscriber_handle_def addStock_def
        split: option.splits IEvent.splits)

lemma warning_router [simp]:
  "eventQueue (snd (StockWarningSubscriber_handle h tbl e w)) = eventQueue w"
  "enqueued (snd (StockWarningSubscriber_handle h tbl e w)) = enqueued w"
  "dequeued (snd (StockWarningSubscriber_handle h tbl e w)) = dequeued w"
  "handled (snd (StockWarningSubscriber_handle h tbl e w)) = handled w"
  "isPublishing (snd (StockWarningSubscriber_handle h tbl e w)) = isPublishing w"
  "activeDrains (snd (StockWarningSubscriber_handle h tbl e w)) = activeDrains w"
  "maxActiveDrains (snd (StockWarningSubscriber_handle h tbl e w)) = maxActiveDrains w"
  "subscribers (snd (StockWarningSubscriber_handle h tbl e w)) = subscribers w"
  "handlerArrays (snd (StockWarningSubscriber_handle h tbl e w)) = handlerArrays w"
  "nextHandlerArray (snd (StockWarningSubscriber_handle h tbl e w)) = nextHandlerArray w"
  "machines (snd (StockWarningSubscriber_handle h tbl e w)) = machines w"
  "machineArrays (snd (StockWarningSubscriber_handle h tbl e w)) = machineArrays w"
  by (simp_all add: StockWarningSubscriber_handle_def split: option.splits)

lemma subscribe_router [simp]:
  "eventQueue (subscribe ty h w) = eventQueue w"
  "enqueued (subscribe ty h w) = enqueued w"
  "dequeued (subscribe ty h w) = dequeued w"
  "handled (subscribe ty h w) = handled w"
  "isPublishing (subscribe ty h w) = isPublishing w"
  "activeDrains (subscribe ty h w) = activeDrains w"
  "maxActiveDrains (subscribe ty h w) = maxActiveDrains w"
  "objects (subscribe ty h w) = objects w"
  "machines (subscribe ty h w) = machines w"
  "machineArrays (subscribe ty h w) = machineArrays w"
  by (simp_all add: subscribe_def Let_def split: option.splits)

lemma unsubscribe_router [simp]:
  "eventQueue (unsubscribe ty h w) = eventQueue w"
  "enqueued (unsubscribe ty h w) = enqueued w"
  "dequeued (unsubscribe ty h w) = dequeued w"
  "handled (unsubscribe ty h w) = handled w"
  "isPublishing (unsubscribe ty h w) = isPublishing w"
  "activeDrains (unsubscribe ty h w) = activeDrains w"
  "maxActiveDrains (unsubscribe ty h w) = maxActiveDrains w"
  "objects (unsubscribe ty h w) = objects w"
  "machines (unsubscribe ty h w) = machines w"
  "machineArrays (unsubscribe ty h w) = machineArrays w"
  by (simp_all add: unsubscribe_def split: option.splits)


lemma grows_steps:
  "publish n e w = Some r1 \<longrightarrow> (\<exists>es. enqueued (finalWorld r1) = enqueued w @ es)"
  by (rule steps_preserve(1) [where R = "\<lambda>w w'. \<exists>es. enqueued w' = enqueued w @ es"])
     (auto simp: push_def beginDrain_def endDrain_def)


subsection \<open>Runs under a raised flag\<close>












subsection \<open>Iteration over the array of a type\<close>

lemma wellformed_subscribe:
  "allocated w \<Longrightarrow> separate w \<Longrightarrow>
     allocated (subscribe ty h w) \<and> separate (subscribe ty h w)"
  unfolding allocated_def separate_def subscribe_def Let_def
  by (auto split: if_splits option.splits) (metis less_irrefl less_SucI)+

lemma wellformed_unsubscribe:
  "allocated w \<Longrightarrow> separate w \<Longrightarrow>
     allocated (unsubscribe ty h w) \<and> separate (unsubscribe ty h w)"
  unfolding allocated_def separate_def unsubscribe_def
  by (auto split: if_splits option.splits) (metis less_irrefl less_SucI)+

lemma iterating_dispatch:
  "isPublishing w \<Longrightarrow> allocated w \<Longrightarrow> separate w \<Longrightarrow> subscribers w ty0 = Some a \<Longrightarrow>
     iterating a ty0 w"
  unfolding iterating_def allocated_def separate_def by blast

lemma held_refl: "iterating a ty0 w \<Longrightarrow> held a ty0 w w"
  by (simp add: held_def)

lemma held_iterating: "held a ty0 w w' \<Longrightarrow> iterating a ty0 w'"
  unfolding held_def by blast

lemma held_array: "held a ty0 w w' \<Longrightarrow> handlerArrays w' a = handlerArrays w a"
  unfolding held_def by blast

lemma held_detached: "held a ty0 w w' \<Longrightarrow> detached a ty0 w \<Longrightarrow> detached a ty0 w'"
  unfolding held_def by blast

lemma held_other: "held a ty0 w w' \<Longrightarrow> isOther (objects w h) \<Longrightarrow> objects w' h = objects w h"
  unfolding held_def by blast

lemma held_other_back: "held a ty0 w w' \<Longrightarrow> isOther (objects w' h) \<Longrightarrow> isOther (objects w h)"
  unfolding held_def by blast

lemma held_trans:
  assumes uv: "held a ty0 u v" and vw: "held a ty0 v w"
  shows "held a ty0 u w"
  unfolding held_def
proof (intro conjI allI impI)
  show "iterating a ty0 w" using held_iterating [OF vw] .
  show "handlerArrays w a = handlerArrays u a"
    using held_array [OF vw] held_array [OF uv] by (rule trans)
  show "detached a ty0 w" if "detached a ty0 u"
    using held_detached [OF vw held_detached [OF uv that]] .
  show "objects w h = objects u h" if "isOther (objects u h)" for h
  proof -
    have 1: "objects v h = objects u h" using held_other [OF uv that] .
    then have "isOther (objects v h)" using that by (simp only:)
    then have "objects w h = objects v h" using held_other [OF vw] by blast
    then show ?thesis using 1 by (rule trans)
  qed
  show "isOther (objects u h)" if "isOther (objects w h)" for h
    using held_other_back [OF uv held_other_back [OF vw that]] .
qed

lemma held_push: "iterating a ty0 w \<Longrightarrow> held a ty0 w (push es w)"
  by (simp add: held_def iterating_def detached_def push_def)

lemma held_pushResult: "iterating a ty0 w \<Longrightarrow> held a ty0 w (pushResult res w)"
  by (cases res) (simp_all add: held_refl held_push)

lemma held_log: "iterating a ty0 w \<Longrightarrow> held a ty0 w (w\<lparr>handled := x\<rparr>)"
  by (simp add: held_def iterating_def detached_def)

lemma held_unsubscribe:
  "iterating a ty0 w \<Longrightarrow> held a ty0 w (unsubscribe ty h w)"
  by (auto simp: held_def iterating_def detached_def unsubscribe_def split: option.splits)

lemma detached_unsubscribe:
  "iterating a ty0 w \<Longrightarrow> detached a ty0 (unsubscribe ty0 h w)"
  by (auto simp: iterating_def detached_def unsubscribe_def split: option.splits)

lemma held_subscribe:
  "iterating a ty0 w \<Longrightarrow> ty \<noteq> ty0 \<or> detached a ty0 w \<Longrightarrow> held a ty0 w (subscribe ty h w)"
  by (auto simp: held_def iterating_def detached_def subscribe_def Let_def split: option.splits)

lemma safeHandlers_held:
  "held a ty0 w w' \<Longrightarrow> safeHandlers w' ty0 e d hs = safeHandlers w ty0 e d hs"
proof (induction hs arbitrary: d)
  case Nil
  then show ?case by simp
next
  case (Cons h hs)
  have "safeHandler ty0 e d (objects w' h) = safeHandler ty0 e d (objects w h) \<and>
        detachesHandler ty0 e (objects w' h) = detachesHandler ty0 e (objects w h)"
  proof (cases "isOther (objects w h)")
    case True
    then have "objects w' h = objects w h" using held_other [OF Cons.prems] by blast
    then show ?thesis by (simp only:)
  next
    case False
    then have "\<not> isOther (objects w' h)" using held_other_back [OF Cons.prems] by blast
    then show ?thesis using False
      by (cases "objects w h"; cases "objects w' h")
         (simp_all add: safeHandler_def detachesHandler_def)
  qed
  then show ?case using Cons.IH [OF Cons.prems] by simp
qed

lemma perform_safe:
  "iterating a ty0 w \<Longrightarrow> (d \<longrightarrow> detached a ty0 w) \<Longrightarrow> safeActs ty0 d acts \<Longrightarrow>
     \<exists>w'. perform n acts (Return res) w = Some (Inr (res, w')) \<and> held a ty0 w w' \<and>
          handled w' = handled w \<and>
          (d \<or> detaches ty0 acts \<longrightarrow> detached a ty0 w')"
proof (induction acts arbitrary: w d)
  case Nil
  then show ?case by (simp add: held_refl)
next
  case (Cons act acts)
  show ?case
  proof (cases act)
    case (CallPublish ev)
    let ?w1 = "push [ev] w"
    have f: "isPublishing w" using Cons.prems(1) by (simp add: iterating_def)
    have p: "publish n ev w = Some (Inr ?w1)" using f by (rule publish_busy)
    have h1: "held a ty0 w ?w1" using held_push [OF Cons.prems(1)] .
    have d1: "d \<longrightarrow> detached a ty0 ?w1" using Cons.prems(2) held_detached [OF h1] by blast
    have s1: "safeActs ty0 d acts" using Cons.prems(3) CallPublish by simp
    from Cons.IH [OF held_iterating [OF h1] d1 s1] obtain w' where
      w': "perform n acts (Return res) ?w1 = Some (Inr (res, w'))" "held a ty0 ?w1 w'"
          "handled w' = handled ?w1" "d \<or> detaches ty0 acts \<longrightarrow> detached a ty0 w'" by blast
    have hw: "held a ty0 w w'" using held_trans [OF h1 w'(2)] .
    have r: "perform n (CallPublish ev # acts) (Return res) w = Some (Inr (res, w'))"
      using p w'(1) by simp
    have hd: "handled w' = handled w" using w'(3) by (simp add: push_def)
    have dt: "d \<or> detaches ty0 (CallPublish ev # acts) \<longrightarrow> detached a ty0 w'"
      using w'(4) by simp
    show ?thesis unfolding CallPublish using r hw hd dt by blast
  next
    case (CallSubscribe ty h)
    let ?w1 = "subscribe ty h w"
    have c: "ty \<noteq> ty0 \<or> detached a ty0 w" using Cons.prems(2,3) CallSubscribe by auto
    have h1: "held a ty0 w ?w1" using held_subscribe [OF Cons.prems(1) c] .
    have d1: "d \<longrightarrow> detached a ty0 ?w1" using Cons.prems(2) held_detached [OF h1] by blast
    have s1: "safeActs ty0 d acts" using Cons.prems(3) CallSubscribe by simp
    from Cons.IH [OF held_iterating [OF h1] d1 s1] obtain w' where
      w': "perform n acts (Return res) ?w1 = Some (Inr (res, w'))" "held a ty0 ?w1 w'"
          "handled w' = handled ?w1" "d \<or> detaches ty0 acts \<longrightarrow> detached a ty0 w'" by blast
    have hw: "held a ty0 w w'" using held_trans [OF h1 w'(2)] .
    have r: "perform n (CallSubscribe ty h # acts) (Return res) w = Some (Inr (res, w'))"
      using w'(1) by simp
    have hd: "handled w' = handled w" using w'(3) by simp
    have dt: "d \<or> detaches ty0 (CallSubscribe ty h # acts) \<longrightarrow> detached a ty0 w'"
      using w'(4) by simp
    show ?thesis unfolding CallSubscribe using r hw hd dt by blast
  next
    case (CallUnsubscribe ty h)
    let ?w1 = "unsubscribe ty h w"
    let ?d1 = "d \<or> ty = ty0"
    have h1: "held a ty0 w ?w1" using held_unsubscribe [OF Cons.prems(1)] .
    have d1: "?d1 \<longrightarrow> detached a ty0 ?w1"
      using Cons.prems(2) held_detached [OF h1] detached_unsubscribe [OF Cons.prems(1)] by blast
    have s1: "safeActs ty0 ?d1 acts" using Cons.prems(3) CallUnsubscribe by simp
    from Cons.IH [OF held_iterating [OF h1] d1 s1] obtain w' where
      w': "perform n acts (Return res) ?w1 = Some (Inr (res, w'))" "held a ty0 ?w1 w'"
          "handled w' = handled ?w1" "?d1 \<or> detaches ty0 acts \<longrightarrow> detached a ty0 w'" by blast
    have hw: "held a ty0 w w'" using held_trans [OF h1 w'(2)] .
    have r: "perform n (CallUnsubscribe ty h # acts) (Return res) w = Some (Inr (res, w'))"
      using w'(1) by simp
    have hd: "handled w' = handled w" using w'(3) by simp
    have dt: "d \<or> detaches ty0 (CallUnsubscribe ty h # acts) \<longrightarrow> detached a ty0 w'"
      using w'(4) by auto
    show ?thesis unfolding CallUnsubscribe using r hw hd dt by blast
  qed
qed

lemma handle_safe:
  assumes "iterating a ty0 w" and "d \<longrightarrow> detached a ty0 w"
    and "safeHandler ty0 e d (objects w h)"
  shows "\<exists>res w'. handle n h e w = Some (Inr (res, w')) \<and> held a ty0 w w' \<and>
           handled w' = handled w \<and>
           (d \<or> detachesHandler ty0 e (objects w h) \<longrightarrow> detached a ty0 w')"
proof (cases "objects w h")
  case (MachineSaleSubscriber b)
  let ?w' = "MachineSaleSubscriber_handle b e w"
  have hw: "held a ty0 w ?w'"
    using assms(1) by (simp add: held_def iterating_def detached_def)
  have r: "handle n h e w = Some (Inr (Void, ?w'))" using MachineSaleSubscriber by simp
  have hd: "handled ?w' = handled w" by simp
  have dt: "d \<or> detachesHandler ty0 e (objects w h) \<longrightarrow> detached a ty0 ?w'"
    using assms(2) held_detached [OF hw] MachineSaleSubscriber
    by (simp add: detachesHandler_def)
  show ?thesis using r hw hd dt by blast
next
  case (MachineRefillSubscriber b)
  let ?w' = "MachineRefillSubscriber_handle b e w"
  have hw: "held a ty0 w ?w'"
    using assms(1) by (simp add: held_def iterating_def detached_def)
  have r: "handle n h e w = Some (Inr (Void, ?w'))" using MachineRefillSubscriber by simp
  have hd: "handled ?w' = handled w" by simp
  have dt: "d \<or> detachesHandler ty0 e (objects w h) \<longrightarrow> detached a ty0 ?w'"
    using assms(2) held_detached [OF hw] MachineRefillSubscriber
    by (simp add: detachesHandler_def)
  show ?thesis using r hw hd dt by blast
next
  case (StockWarningSubscriber tbl)
  obtain res w' where rw: "StockWarningSubscriber_handle h tbl e w = (res, w')"
    by (cases "StockWarningSubscriber_handle h tbl e w")
  then have w': "w' = snd (StockWarningSubscriber_handle h tbl e w)" by simp
  have o: "(\<forall>h'. isOther (objects w h') \<longrightarrow> objects w' h' = objects w h') \<and>
           (\<forall>h'. isOther (objects w' h') \<longrightarrow> isOther (objects w h'))"
    using rw StockWarningSubscriber
    by (auto simp: StockWarningSubscriber_handle_def split: option.splits if_splits)
  have "iterating a ty0 w'" "handlerArrays w' a = handlerArrays w a"
    "detached a ty0 w \<longrightarrow> detached a ty0 w'" "handled w' = handled w"
    using assms(1) unfolding w' by (simp_all add: iterating_def detached_def)
  then have hw: "held a ty0 w w'" "handled w' = handled w"
    unfolding held_def using o by blast+
  have r: "handle n h e w = Some (Inr (res, w'))" using StockWarningSubscriber rw by simp
  have dt: "d \<or> detachesHandler ty0 e (objects w h) \<longrightarrow> detached a ty0 w'"
    using assms(2) held_detached [OF hw(1)] StockWarningSubscriber
    by (simp add: detachesHandler_def)
  show ?thesis using r hw dt by blast
next
  case (StockLoggerSubscriber b)
  then have r: "handle n h e w = Some (Inr (Void, w))" by simp
  have dt: "d \<or> detachesHandler ty0 e (objects w h) \<longrightarrow> detached a ty0 w"
    using assms(2) StockLoggerSubscriber by (simp add: detachesHandler_def)
  show ?thesis using r held_refl [OF assms(1)] dt by blast
next
  case (OtherSubscriber f)
  from assms(3) OtherSubscriber obtain res where
    c: "safeActs ty0 d (fst (f e))" "snd (f e) = Return res"
    by (auto simp: safeHandler_def split: ending.splits)
  from perform_safe [OF assms(1,2) c(1), of n res] obtain w' where
    w': "perform n (fst (f e)) (Return res) w = Some (Inr (res, w'))" "held a ty0 w w'"
        "handled w' = handled w" "d \<or> detaches ty0 (fst (f e)) \<longrightarrow> detached a ty0 w'"
    by blast
  have r: "handle n h e w = Some (Inr (res, w'))" using OtherSubscriber c(2) w'(1) by simp
  have dt: "d \<or> detachesHandler ty0 e (objects w h) \<longrightarrow> detached a ty0 w'"
    using w'(4) OtherSubscriber by (simp add: detachesHandler_def)
  show ?thesis using r w'(2,3) dt by blast
qed

lemma for_loop_safe:
  "iterating a ty0 w \<Longrightarrow> (d \<longrightarrow> detached a ty0 w) \<Longrightarrow>
   safeHandlers w ty0 e d (drop i (handlerArrays w a)) \<Longrightarrow>
   length (handlerArrays w a) - i < n \<Longrightarrow>
     \<exists>w'. for_loop n a i e w = Some (Inr w') \<and>
          handled w' = handled w @ map (\<lambda>h. (h, e)) (drop i (handlerArrays w a)) \<and>
          handlerArrays w' a = handlerArrays w a"
proof (induction n arbitrary: i w d)
  case 0
  then show ?case by simp
next
  case (Suc n)
  show ?case
  proof (cases "i < length (handlerArrays w a)")
    case False
    then show ?thesis by simp
  next
    case True
    let ?hs = "handlerArrays w a"
    let ?h = "?hs ! i"
    let ?w1 = "w\<lparr>handled := handled w @ [(?h, e)]\<rparr>"
    let ?d' = "d \<or> detachesHandler ty0 e (objects w ?h)"
    have dr: "drop i ?hs = ?h # drop (i + 1) ?hs"
      using Cons_nth_drop_Suc [OF True] by simp
    have sh: "safeHandler ty0 e d (objects w ?h)"
      and st: "safeHandlers w ty0 e ?d' (drop (i + 1) ?hs)"
      using Suc.prems(3) unfolding dr by simp_all
    have h1: "held a ty0 w ?w1" using held_log [OF Suc.prems(1)] .
    have d1: "d \<longrightarrow> detached a ty0 ?w1" using Suc.prems(2) held_detached [OF h1] by blast
    have sh1: "safeHandler ty0 e d (objects ?w1 ?h)" using sh by simp
    from handle_safe [OF held_iterating [OF h1] d1 sh1] obtain res w2 where
      w2: "handle n ?h e ?w1 = Some (Inr (res, w2))" "held a ty0 ?w1 w2"
          "handled w2 = handled ?w1"
          "d \<or> detachesHandler ty0 e (objects ?w1 ?h) \<longrightarrow> detached a ty0 w2" by blast
    let ?w3 = "pushResult res w2"
    have h3a: "held a ty0 w2 ?w3" using held_pushResult [OF held_iterating [OF w2(2)]] .
    have h3: "held a ty0 w ?w3" using held_trans [OF h1 held_trans [OF w2(2) h3a]] .
    have arr: "handlerArrays ?w3 a = ?hs" using held_array [OF h3] .
    have hd3: "handled ?w3 = handled w @ [(?h, e)]"
      using w2(3) by (cases res) (simp_all add: push_def)
    have p1: "iterating a ty0 ?w3" using held_iterating [OF h3] .
    have p2: "?d' \<longrightarrow> detached a ty0 ?w3" using w2(4) held_detached [OF h3a] by auto
    have p3: "safeHandlers ?w3 ty0 e ?d' (drop (i + 1) (handlerArrays ?w3 a))"
      using st by (simp add: safeHandlers_held [OF h3] arr)
    have p4: "length (handlerArrays ?w3 a) - (i + 1) < n"
      using Suc.prems(4) True arr by simp
    from Suc.IH [OF p1 p2 p3 p4] obtain w' where
      w': "for_loop n a (i + 1) e ?w3 = Some (Inr w')"
          "handled w' = handled ?w3 @ map (\<lambda>h. (h, e)) (drop (i + 1) (handlerArrays ?w3 a))"
          "handlerArrays w' a = handlerArrays ?w3 a" by blast
    have "for_loop (Suc n) a i e w = Some (Inr w')"
      using True w2(1) w'(1) by (simp add: Let_def)
    moreover have "handled w' = handled w @ map (\<lambda>h. (h, e)) (drop i ?hs)"
      unfolding dr using w'(2) hd3 arr by simp
    ultimately show ?thesis using w'(3) arr by simp
  qed
qed

subsection \<open>Runs with the four classes only\<close>

lemma static_refl: "static w w"
  by (simp add: static_def)

lemma static_trans: "static a b \<Longrightarrow> static b c \<Longrightarrow> static a c"
  by (simp add: static_def)

lemma static_mutates:
  assumes s: "static w w'"
  shows "mutates w' h e = mutates w h e"
proof -
  have m: "machines w' = machines w" "machineArrays w' = machineArrays w"
    using s by (simp_all add: static_def)
  have sale: "\<And>a. (objects w' h = MachineSaleSubscriber a) = (objects w h = MachineSaleSubscriber a)"
    and refill: "\<And>a. (objects w' h = MachineRefillSubscriber a) = (objects w h = MachineRefillSubscriber a)"
    using s by (simp_all add: static_def)
  show ?thesis
  proof (cases "objects w h")
    case (MachineSaleSubscriber a)
    moreover from this have "objects w' h = MachineSaleSubscriber a" by (simp add: sale)
    ultimately show ?thesis by (cases e) (simp_all add: mutates_def knowsId_def m)
  next
    case (MachineRefillSubscriber a)
    moreover from this have "objects w' h = MachineRefillSubscriber a" by (simp add: refill)
    ultimately show ?thesis by (cases e) (simp_all add: mutates_def knowsId_def m)
  next
    case (StockWarningSubscriber tbl)
    then have "\<forall>a. objects w' h \<noteq> MachineSaleSubscriber a"
      "\<forall>a. objects w' h \<noteq> MachineRefillSubscriber a" by (simp_all add: sale refill)
    then show ?thesis using StockWarningSubscriber
      by (cases "objects w' h") (simp_all add: mutates_def)
  next
    case (StockLoggerSubscriber a)
    then have "\<forall>a. objects w' h \<noteq> MachineSaleSubscriber a"
      "\<forall>a. objects w' h \<noteq> MachineRefillSubscriber a" by (simp_all add: sale refill)
    then show ?thesis using StockLoggerSubscriber
      by (cases "objects w' h") (simp_all add: mutates_def)
  next
    case (OtherSubscriber f)
    then have "\<forall>a. objects w' h \<noteq> MachineSaleSubscriber a"
      "\<forall>a. objects w' h \<noteq> MachineRefillSubscriber a" by (simp_all add: sale refill)
    then show ?thesis using OtherSubscriber
      by (cases "objects w' h") (simp_all add: mutates_def)
  qed
qed

lemma static_registered: "static w w' \<Longrightarrow> registered w' ty = registered w ty"
  by (simp add: registered_def static_def split: option.splits)

lemma static_harmless:
  assumes s: "static w w'"
  shows "harmless w' e = harmless w e"
  unfolding harmless_def static_registered [OF s] static_mutates [OF s] ..

lemma static_ownClasses: "static w w' \<Longrightarrow> ownClasses w \<Longrightarrow> ownClasses w'"
  by (simp add: ownClasses_def static_def)

lemma static_pushResult: "static w (pushResult res w)"
  by (cases res) (simp_all add: static_def push_def)

lemma harmless_derived:
  assumes "derived res" and "\<forall>x\<in>set (eventQueue w). harmless w x"
  shows "\<forall>x\<in>set (eventQueue (pushResult res w)). harmless (pushResult res w) x"
proof -
  have new: "\<And>mid. harmless w (LowStockWarningEvent mid)"
    "\<And>mid. harmless w (StockLevelOkEvent mid)"
    by (auto simp: harmless_def mutates_def split: ISubscriber.splits)
  have "\<forall>x\<in>set (eventQueue (pushResult res w)). harmless w x"
    using assms new by (induction res rule: derived.induct) (auto simp: push_def)
  then show ?thesis by (simp add: static_harmless [OF static_pushResult])
qed

lemma handle_own:
  assumes "\<not> isOther (objects w h)" and "\<not> mutates w h e"
  shows "\<exists>res w'. handle n h e w = Some (Inr (res, w')) \<and> static w w' \<and>
           eventQueue w' = eventQueue w \<and> derived res"
proof (cases "objects w h")
  case (MachineSaleSubscriber a)
  have "MachineSaleSubscriber_handle a e w = w"
    using assms(2) MachineSaleSubscriber
    by (cases e)
       (auto simp: mutates_def knowsId_def MachineSaleSubscriber_handle_def findIndex_unknown
          split: option.splits)
  then show ?thesis using MachineSaleSubscriber by (simp add: static_refl)
next
  case (MachineRefillSubscriber a)
  have "MachineRefillSubscriber_handle a e w = w"
    using assms(2) MachineRefillSubscriber
    by (cases e)
       (auto simp: mutates_def knowsId_def MachineRefillSubscriber_handle_def findIndex_unknown
          split: option.splits)
  then show ?thesis using MachineRefillSubscriber by (simp add: static_refl)
next
  case (StockWarningSubscriber tbl)
  obtain res w' where rw: "StockWarningSubscriber_handle h tbl e w = (res, w')"
    by (cases "StockWarningSubscriber_handle h tbl e w")
  then have w': "w' = snd (StockWarningSubscriber_handle h tbl e w)" by simp
  have o: "derived res \<and> (\<forall>h'. h' \<noteq> h \<longrightarrow> objects w' h' = objects w h') \<and>
           (\<exists>t. objects w' h = StockWarningSubscriber t)"
    using rw StockWarningSubscriber
    by (auto simp: StockWarningSubscriber_handle_def split: option.splits if_splits)
  have "static w w'"
    unfolding static_def
  proof (intro conjI allI)
    fix h' a
    show "(objects w' h' = MachineSaleSubscriber a) = (objects w h' = MachineSaleSubscriber a)"
      using o StockWarningSubscriber by (cases "h' = h") auto
    show "(objects w' h' = MachineRefillSubscriber a) = (objects w h' = MachineRefillSubscriber a)"
      using o StockWarningSubscriber by (cases "h' = h") auto
  next
    fix h'
    show "isOther (objects w' h') = isOther (objects w h')"
      using o StockWarningSubscriber by (cases "h' = h") auto
  qed (simp_all add: w')
  moreover have "eventQueue w' = eventQueue w" by (simp add: w')
  ultimately show ?thesis using StockWarningSubscriber rw o by simp
next
  case (StockLoggerSubscriber a)
  then show ?thesis by (simp add: static_refl)
next
  case (OtherSubscriber f)
  then show ?thesis using assms(1) by simp
qed

lemma for_loop_own:
  "ownClasses w \<Longrightarrow> \<forall>h\<in>set (handlerArrays w a). \<not> mutates w h e \<Longrightarrow>
   \<forall>x\<in>set (eventQueue w). harmless w x \<Longrightarrow> for_loop n a i e w = Some r \<Longrightarrow>
     \<exists>w'. r = Inr w' \<and> static w w' \<and> (\<forall>x\<in>set (eventQueue w'). harmless w' x)"
proof (induction n arbitrary: i w)
  case 0
  then show ?case by simp
next
  case (Suc n)
  show ?case
  proof (cases "i < length (handlerArrays w a)")
    case False
    then show ?thesis using Suc.prems by (auto simp: static_refl)
  next
    case True
    let ?h = "handlerArrays w a ! i"
    let ?w1 = "w\<lparr>handled := handled w @ [(?h, e)]\<rparr>"
    have s1: "static w ?w1" by (simp add: static_def)
    have o1: "\<not> isOther (objects ?w1 ?h)" using Suc.prems(1) by (simp add: ownClasses_def)
    have m1: "\<not> mutates ?w1 ?h e"
      using Suc.prems(2) True by (simp add: static_mutates [OF s1])
    from handle_own [OF o1 m1] obtain res w2 where
      w2: "handle n ?h e ?w1 = Some (Inr (res, w2))" "static ?w1 w2"
          "eventQueue w2 = eventQueue ?w1" "derived res" by blast
    let ?w3 = "pushResult res w2"
    have s2: "static w w2" using static_trans [OF s1 w2(2)] .
    have s3: "static w ?w3" using static_trans [OF s2 static_pushResult] .
    have q2: "\<forall>x\<in>set (eventQueue w2). harmless w2 x"
      using Suc.prems(3) w2(3) by (simp add: static_harmless [OF s2])
    have p1: "ownClasses ?w3" using static_ownClasses [OF s3 Suc.prems(1)] .
    have p2: "\<forall>h\<in>set (handlerArrays ?w3 a). \<not> mutates ?w3 h e"
    proof -
      have "handlerArrays ?w3 = handlerArrays w" using s3 by (simp add: static_def)
      then show ?thesis using Suc.prems(2) by (simp add: static_mutates [OF s3])
    qed
    have p3: "\<forall>x\<in>set (eventQueue ?w3). harmless ?w3 x"
      using harmless_derived [OF w2(4) q2] .
    have p4: "for_loop n a (i + 1) e ?w3 = Some r"
      using Suc.prems(4) True w2(1) by (simp add: Let_def)
    from Suc.IH [OF p1 p2 p3 p4] obtain w' where
      w': "r = Inr w'" "static ?w3 w'" "\<forall>x\<in>set (eventQueue w'). harmless w' x" by blast
    have "static w w'" using static_trans [OF s3 w'(2)] .
    then show ?thesis using w'(1) w'(3) by blast
  qed
qed

lemma while_loop_own:
  "ownClasses w \<Longrightarrow> \<forall>x\<in>set (eventQueue w). harmless w x \<Longrightarrow> while_loop n w = Some r \<Longrightarrow>
     \<exists>w'. r = Inr w' \<and> static w w'"
proof (induction n arbitrary: w)
  case 0
  then show ?case by simp
next
  case (Suc n)
  show ?case
  proof (cases "eventQueue w")
    case Nil
    then show ?thesis using Suc.prems(3) by (auto simp: static_refl)
  next
    case (Cons ev rest)
    let ?w1 = "w\<lparr>eventQueue := rest, dequeued := dequeued w @ [ev]\<rparr>"
    have s1: "static w ?w1" by (simp add: static_def)
    have o1: "ownClasses ?w1" using static_ownClasses [OF s1 Suc.prems(1)] .
    have q1: "\<forall>x\<in>set (eventQueue ?w1). harmless ?w1 x"
      using Suc.prems(2) Cons by (simp add: static_harmless [OF s1])
    have hv: "harmless w ev" using Suc.prems(2) Cons by simp
    show ?thesis
    proof (cases "subscribers w (type_of ev)")
      case None
      then have "while_loop n ?w1 = Some r" using Suc.prems(3) Cons by simp
      from Suc.IH [OF o1 q1 this] obtain w' where "r = Inr w'" "static ?w1 w'" by blast
      then show ?thesis using static_trans [OF s1] by blast
    next
      case (Some arr)
      have ms: "\<forall>h\<in>set (handlerArrays ?w1 arr). \<not> mutates ?w1 h ev"
        using hv Some by (simp add: harmless_def registered_def static_mutates [OF s1])
      show ?thesis
      proof (cases "for_loop n arr 0 ev ?w1")
        case None
        then show ?thesis using Suc.prems(3) Cons Some by simp
      next
        case (Some r1)
        from for_loop_own [OF o1 ms q1 Some] obtain w2 where
          w2: "r1 = Inr w2" "static ?w1 w2" "\<forall>x\<in>set (eventQueue w2). harmless w2 x" by blast
        have s2: "static w w2" using static_trans [OF s1 w2(2)] .
        have "while_loop n w2 = Some r"
          using Suc.prems(3) Cons \<open>subscribers w (type_of ev) = Some arr\<close> Some w2(1) by simp
        from Suc.IH [OF static_ownClasses [OF s2 Suc.prems(1)] w2(3) this]
        obtain w' where "r = Inr w'" "static w2 w'" by blast
        then show ?thesis using static_trans [OF s2] by blast
      qed
    qed
  qed
qed

lemma publish_own:
  assumes "ownClasses w" and "\<forall>x\<in>set (eventQueue w). harmless w x" and "harmless w e"
    and "publish n e w = Some r"
  shows "\<exists>w'. r = Inr w' \<and> machines w' = machines w"
proof (cases "isPublishing w")
  case True
  then show ?thesis using assms(4) by (auto simp: publish_busy push_def)
next
  case False
  let ?w1 = "beginDrain (push [e] w)"
  have s1: "static w ?w1" by (simp add: static_def beginDrain_def push_def)
  have o1: "ownClasses ?w1" using static_ownClasses [OF s1 assms(1)] .
  have q1: "\<forall>x\<in>set (eventQueue ?w1). harmless ?w1 x"
    using assms(2,3) by (simp add: static_harmless [OF s1]) (simp add: beginDrain_def push_def)
  show ?thesis
  proof (cases "while_loop n ?w1")
    case None
    then show ?thesis using assms(4) False by (simp add: publish_idle)
  next
    case (Some r1)
    from while_loop_own [OF o1 q1 Some] obtain w2 where w2: "r1 = Inr w2" "static ?w1 w2"
      by blast
    have "machines w2 = machines w" using static_trans [OF s1 w2(2)] by (simp add: static_def)
    then show ?thesis using assms(4) False Some w2(1)
      by (auto simp: publish_idle endDrain_def)
  qed
qed

lemma registered_unsubscribe:
  "registered (unsubscribe ty h w) ty = filter (\<lambda>x. x \<noteq> h) (registered w ty)"
  by (simp add: registered_def unsubscribe_def split: option.splits)

lemma registered_unsubscribe_other:
  "allocated w \<Longrightarrow> ty' \<noteq> ty \<Longrightarrow> registered (unsubscribe ty h w) ty' = registered w ty'"
  by (auto simp: registered_def unsubscribe_def allocated_def split: option.splits)

lemma static_unsubscribe_harmless:
  assumes "\<forall>x\<in>set (registered w ty). x \<noteq> h \<longrightarrow> \<not> mutates w x e" and "type_of e = ty"
  shows "harmless (unsubscribe ty h w) e"
proof -
  have "mutates (unsubscribe ty h w) = mutates w"
    by (auto simp: mutates_def knowsId_def fun_eq_iff split: ISubscriber.splits IEvent.splits)
  then show ?thesis using assms
    by (simp add: harmless_def registered_unsubscribe)
qed

subsection \<open>The history of pushes\<close>



subsection \<open>Top-level calls one after the other\<close>


section \<open>Properties\<close>










text \<open>
  C4. The stock-warning subscriber, for a machine of its scope, returns one low-stock
  event and records the warning exactly when the level it reads is below 3 and no
  warning is recorded. In the main program (sale subscriber, then stock-warning
  subscriber on \<^verbatim>\<open>sale\<close>), with machine \<^verbatim>\<open>001\<close> at 10: the sales of 4, 4 and 1
  bring the level to 6, 2 and 1, and exactly one low-stock event is pushed, during the
  second sale.
\<close>

theorem C4_low_stock_edge:
  "(objects w h = StockWarningSubscriber tbl \<and> tbl (machineId e) = Some (m, warned) \<longrightarrow>
      (handle n h e w =
         Some (Inr (Single (LowStockWarningEvent (idM (machines w m))),
                    w\<lparr>objects := (objects w)
                        (h := StockWarningSubscriber (tbl(machineId e \<mapsto> (m, True))))\<rparr>)))
      = (stockLevel (machines w m) < 3 \<and> \<not> warned)) \<and>
   registered (wired (fleet 10 False)) ''sale'' = [0, 2] \<and>
   map_option (stockOf 0)
     (returned (publishAll 5 [MachineSaleEvent 4 ''001''] (wired (fleet 10 False)))) = Some 6 \<and>
   map_option enqueued
     (returned (publishAll 5 [MachineSaleEvent 4 ''001''] (wired (fleet 10 False))))
     = Some [MachineSaleEvent 4 ''001''] \<and>
   map_option (stockOf 0)
     (returned (publishAll 5 [MachineSaleEvent 4 ''001'', MachineSaleEvent 4 ''001'']
        (wired (fleet 10 False)))) = Some 2 \<and>
   map_option enqueued
     (returned (publishAll 5 [MachineSaleEvent 4 ''001'', MachineSaleEvent 4 ''001'']
        (wired (fleet 10 False))))
     = Some [MachineSaleEvent 4 ''001'', MachineSaleEvent 4 ''001'',
             LowStockWarningEvent ''001''] \<and>
   map_option (stockOf 0)
     (returned (publishAll 5 [MachineSaleEvent 4 ''001'', MachineSaleEvent 4 ''001'',
          MachineSaleEvent 1 ''001''] (wired (fleet 10 False)))) = Some 1 \<and>
   map_option enqueued
     (returned (publishAll 5 [MachineSaleEvent 4 ''001'', MachineSaleEvent 4 ''001'',
          MachineSaleEvent 1 ''001''] (wired (fleet 10 False))))
     = Some [MachineSaleEvent 4 ''001'', MachineSaleEvent 4 ''001'',
             LowStockWarningEvent ''001'', MachineSaleEvent 1 ''001''] \<and>
   map_option handled
     (returned (publishAll 5 [MachineSaleEvent 4 ''001'', MachineSaleEvent 4 ''001'',
          MachineSaleEvent 1 ''001''] (wired (fleet 10 False))))
     = Some [(0, MachineSaleEvent 4 ''001''), (2, MachineSaleEvent 4 ''001''),
             (0, MachineSaleEvent 4 ''001''), (2, MachineSaleEvent 4 ''001''),
             (3, LowStockWarningEvent ''001''),
             (0, MachineSaleEvent 1 ''001''), (2, MachineSaleEvent 1 ''001'')]"
proof -
  have general:
    "objects w h = StockWarningSubscriber tbl \<and> tbl (machineId e) = Some (m, warned) \<longrightarrow>
      (handle n h e w =
         Some (Inr (Single (LowStockWarningEvent (idM (machines w m))),
                    w\<lparr>objects := (objects w)
                        (h := StockWarningSubscriber (tbl(machineId e \<mapsto> (m, True))))\<rparr>)))
      = (stockLevel (machines w m) < 3 \<and> \<not> warned)"
    using warning_low by blast
  have r: "registered (wired (fleet 10 False)) ''sale'' = [0, 2]" by code_simp
  have s1: "map_option (stockOf 0)
     (returned (publishAll 5 [MachineSaleEvent 4 ''001''] (wired (fleet 10 False)))) = Some 6"
    by code_simp
  have e1: "map_option enqueued
     (returned (publishAll 5 [MachineSaleEvent 4 ''001''] (wired (fleet 10 False))))
     = Some [MachineSaleEvent 4 ''001'']"
    by code_simp
  have s2: "map_option (stockOf 0)
     (returned (publishAll 5 [MachineSaleEvent 4 ''001'', MachineSaleEvent 4 ''001'']
        (wired (fleet 10 False)))) = Some 2"
    by code_simp
  have e2: "map_option enqueued
     (returned (publishAll 5 [MachineSaleEvent 4 ''001'', MachineSaleEvent 4 ''001'']
        (wired (fleet 10 False))))
     = Some [MachineSaleEvent 4 ''001'', MachineSaleEvent 4 ''001'',
             LowStockWarningEvent ''001'']"
    by code_simp
  have s3: "map_option (stockOf 0)
     (returned (publishAll 5 [MachineSaleEvent 4 ''001'', MachineSaleEvent 4 ''001'',
          MachineSaleEvent 1 ''001''] (wired (fleet 10 False)))) = Some 1"
    by code_simp
  have e3: "map_option enqueued
     (returned (publishAll 5 [MachineSaleEvent 4 ''001'', MachineSaleEvent 4 ''001'',
          MachineSaleEvent 1 ''001''] (wired (fleet 10 False))))
     = Some [MachineSaleEvent 4 ''001'', MachineSaleEvent 4 ''001'',
             LowStockWarningEvent ''001'', MachineSaleEvent 1 ''001'']"
    by code_simp
  have h3: "map_option handled
     (returned (publishAll 5 [MachineSaleEvent 4 ''001'', MachineSaleEvent 4 ''001'',
          MachineSaleEvent 1 ''001''] (wired (fleet 10 False))))
     = Some [(0, MachineSaleEvent 4 ''001''), (2, MachineSaleEvent 4 ''001''),
             (0, MachineSaleEvent 4 ''001''), (2, MachineSaleEvent 4 ''001''),
             (3, LowStockWarningEvent ''001''),
             (0, MachineSaleEvent 1 ''001''), (2, MachineSaleEvent 1 ''001'')]"
    by code_simp
  show ?thesis using general r s1 e1 s2 e2 s3 e3 h3 by blast
qed

text \<open>
  At level 2 with no warning recorded the low-stock event is returned.
\<close>

theorem C4_low_stock_edge_witness:
  "handle 0 2 (MachineSaleEvent 4 ''001'') (wired (fleet 2 False)) =
     Some (Inr (Single (LowStockWarningEvent (idM (machines (wired (fleet 2 False)) 0))),
                (wired (fleet 2 False))\<lparr>objects := (objects (wired (fleet 2 False)))
                    (2 := StockWarningSubscriber
                       ([''001'' \<mapsto> (0, False), ''002'' \<mapsto> (1, False), ''003'' \<mapsto> (2, False)]
                          (machineId (MachineSaleEvent 4 ''001'') \<mapsto> (0, True))))\<rparr>))"
proof -
  let ?w = "wired (fleet 2 False)"
  let ?tbl = "[''001'' \<mapsto> (0::nat, False), ''002'' \<mapsto> (1, False), ''003'' \<mapsto> (2, False)]"
  have o: "objects ?w 2 = StockWarningSubscriber ?tbl" by (simp add: wired_def fleet_def)
  have t: "?tbl (machineId (MachineSaleEvent 4 ''001'')) = Some (0, False)" by simp
  have l: "stockLevel (machines ?w 0) < 3 \<and> \<not> False" by (simp add: wired_def fleet_def)
  from C4_low_stock_edge [where w = ?w and h = 2 and tbl = ?tbl
      and e = "MachineSaleEvent 4 ''001''" and m = 0 and warned = False and n = 0,
      THEN conjunct1] o t l
  show ?thesis by blast
qed

text \<open>
  C5. The stock-warning subscriber, for a machine of its scope, returns one recovered
  event and clears the warning exactly when the level it reads is at least 3 and a
  warning is recorded; when the recorded state agrees with the side of the threshold
  the level is on, it returns nothing and changes nothing. In the main program, with
  machine \<^verbatim>\<open>001\<close> at 1 and warned: the refills of 2 and 5 bring the level to 3 and 8,
  and exactly one recovered event is pushed, during the first refill.
\<close>

theorem C5_recovery_edge:
  "(objects w h = StockWarningSubscriber tbl \<and> tbl (machineId e) = Some (m, warned) \<longrightarrow>
      ((handle n h e w =
          Some (Inr (Single (StockLevelOkEvent (idM (machines w m))),
                     w\<lparr>objects := (objects w)
                         (h := StockWarningSubscriber (tbl(machineId e \<mapsto> (m, False))))\<rparr>)))
       = (3 \<le> stockLevel (machines w m) \<and> warned)) \<and>
      (warned = (stockLevel (machines w m) < 3) \<longrightarrow> handle n h e w = Some (Inr (Void, w)))) \<and>
   registered (wired (fleet 1 True)) ''refill'' = [1, 2] \<and>
   map_option (stockOf 0)
     (returned (publishAll 5 [MachineRefillEvent 2 ''001''] (wired (fleet 1 True)))) = Some 3 \<and>
   map_option enqueued
     (returned (publishAll 5 [MachineRefillEvent 2 ''001''] (wired (fleet 1 True))))
     = Some [MachineRefillEvent 2 ''001'', StockLevelOkEvent ''001''] \<and>
   map_option (stockOf 0)
     (returned (publishAll 5 [MachineRefillEvent 2 ''001'', MachineRefillEvent 5 ''001'']
        (wired (fleet 1 True)))) = Some 8 \<and>
   map_option enqueued
     (returned (publishAll 5 [MachineRefillEvent 2 ''001'', MachineRefillEvent 5 ''001'']
        (wired (fleet 1 True))))
     = Some [MachineRefillEvent 2 ''001'', StockLevelOkEvent ''001'',
             MachineRefillEvent 5 ''001''] \<and>
   map_option handled
     (returned (publishAll 5 [MachineRefillEvent 2 ''001'', MachineRefillEvent 5 ''001'']
        (wired (fleet 1 True))))
     = Some [(1, MachineRefillEvent 2 ''001''), (2, MachineRefillEvent 2 ''001''),
             (3, StockLevelOkEvent ''001''),
             (1, MachineRefillEvent 5 ''001''), (2, MachineRefillEvent 5 ''001'')]"
proof -
  have general:
    "objects w h = StockWarningSubscriber tbl \<and> tbl (machineId e) = Some (m, warned) \<longrightarrow>
      ((handle n h e w =
          Some (Inr (Single (StockLevelOkEvent (idM (machines w m))),
                     w\<lparr>objects := (objects w)
                         (h := StockWarningSubscriber (tbl(machineId e \<mapsto> (m, False))))\<rparr>)))
       = (3 \<le> stockLevel (machines w m) \<and> warned)) \<and>
      (warned = (stockLevel (machines w m) < 3) \<longrightarrow> handle n h e w = Some (Inr (Void, w)))"
    using warning_ok warning_same_side by blast
  have r: "registered (wired (fleet 1 True)) ''refill'' = [1, 2]" by code_simp
  have s1: "map_option (stockOf 0)
     (returned (publishAll 5 [MachineRefillEvent 2 ''001''] (wired (fleet 1 True)))) = Some 3"
    by code_simp
  have e1: "map_option enqueued
     (returned (publishAll 5 [MachineRefillEvent 2 ''001''] (wired (fleet 1 True))))
     = Some [MachineRefillEvent 2 ''001'', StockLevelOkEvent ''001'']"
    by code_simp
  have s2: "map_option (stockOf 0)
     (returned (publishAll 5 [MachineRefillEvent 2 ''001'', MachineRefillEvent 5 ''001'']
        (wired (fleet 1 True)))) = Some 8"
    by code_simp
  have e2: "map_option enqueued
     (returned (publishAll 5 [MachineRefillEvent 2 ''001'', MachineRefillEvent 5 ''001'']
        (wired (fleet 1 True))))
     = Some [MachineRefillEvent 2 ''001'', StockLevelOkEvent ''001'',
             MachineRefillEvent 5 ''001'']"
    by code_simp
  have h2: "map_option handled
     (returned (publishAll 5 [MachineRefillEvent 2 ''001'', MachineRefillEvent 5 ''001'']
        (wired (fleet 1 True))))
     = Some [(1, MachineRefillEvent 2 ''001''), (2, MachineRefillEvent 2 ''001''),
             (3, StockLevelOkEvent ''001''),
             (1, MachineRefillEvent 5 ''001''), (2, MachineRefillEvent 5 ''001'')]"
    by code_simp
  show ?thesis using general r s1 e1 s2 e2 h2 by blast
qed

text \<open>
  At level 3 with a warning recorded the recovered event is returned; at level 8 with
  none recorded nothing is.
\<close>

theorem C5_recovery_edge_witness:
  "handle 0 2 (MachineRefillEvent 2 ''001'') (wired (fleet 3 True)) =
     Some (Inr (Single (StockLevelOkEvent (idM (machines (wired (fleet 3 True)) 0))),
                (wired (fleet 3 True))\<lparr>objects := (objects (wired (fleet 3 True)))
                    (2 := StockWarningSubscriber
                       ([''001'' \<mapsto> (0, True), ''002'' \<mapsto> (1, False), ''003'' \<mapsto> (2, False)]
                          (machineId (MachineRefillEvent 2 ''001'') \<mapsto> (0, False))))\<rparr>)) \<and>
   handle 0 2 (MachineRefillEvent 5 ''001'') (wired (fleet 8 False)) =
     Some (Inr (Void, wired (fleet 8 False)))"
proof -
  let ?w = "wired (fleet 3 True)"
  let ?tbl = "[''001'' \<mapsto> (0::nat, True), ''002'' \<mapsto> (1, False), ''003'' \<mapsto> (2, False)]"
  have o: "objects ?w 2 = StockWarningSubscriber ?tbl" by (simp add: wired_def fleet_def)
  have t: "?tbl (machineId (MachineRefillEvent 2 ''001'')) = Some (0, True)" by simp
  have l: "3 \<le> stockLevel (machines ?w 0) \<and> True" by (simp add: wired_def fleet_def)
  from C5_recovery_edge [where w = ?w and h = 2 and tbl = ?tbl
      and e = "MachineRefillEvent 2 ''001''" and m = 0 and warned = True and n = 0,
      THEN conjunct1] o t l
  have 1: "handle 0 2 (MachineRefillEvent 2 ''001'') ?w =
     Some (Inr (Single (StockLevelOkEvent (idM (machines ?w 0))),
                ?w\<lparr>objects := (objects ?w)
                    (2 := StockWarningSubscriber
                       (?tbl(machineId (MachineRefillEvent 2 ''001'') \<mapsto> (0, False))))\<rparr>))"
    by blast
  let ?v = "wired (fleet 8 False)"
  let ?tbl' = "[''001'' \<mapsto> (0::nat, False), ''002'' \<mapsto> (1, False), ''003'' \<mapsto> (2, False)]"
  have o': "objects ?v 2 = StockWarningSubscriber ?tbl'" by (simp add: wired_def fleet_def)
  have t': "?tbl' (machineId (MachineRefillEvent 5 ''001'')) = Some (0, False)" by simp
  have l': "False = (stockLevel (machines ?v 0) < 3)" by (simp add: wired_def fleet_def)
  from C5_recovery_edge [where w = ?v and h = 2 and tbl = ?tbl'
      and e = "MachineRefillEvent 5 ''001''" and m = 0 and warned = False and n = 0,
      THEN conjunct1] o' t' l'
  have 2: "handle 0 2 (MachineRefillEvent 5 ''001'') ?v = Some (Inr (Void, ?v))"
    by blast
  show ?thesis using 1 2 by blast
qed

text \<open>
  C6. After \<^verbatim>\<open>unsubscribe(type, handler)\<close> the handlers of the type are the ones
  before without every entry equal to the handler, so the handler is not among them. For
  a type that was never subscribed the state is the same; for a handler that is absent
  the handlers of the type are the same; the handlers of the other types are the same.
  After \<^verbatim>\<open>unsubscribe("sale", handler)\<close>, when every subscriber is of the four classes
  and no other handler of \<^verbatim>\<open>sale\<close> is a sale subscriber with the machine id in its
  scope, \<^verbatim>\<open>publish\<close> of a sale event returns with every stock level as it was.
\<close>

theorem C6_unsubscribe:
  "registered (unsubscribe ty h w) ty = filter (\<lambda>x. x \<noteq> h) (registered w ty) \<and>
   h \<notin> set (registered (unsubscribe ty h w) ty) \<and>
   (subscribers w ty = None \<longrightarrow> unsubscribe ty h w = w) \<and>
   (h \<notin> set (registered w ty) \<longrightarrow>
      registered (unsubscribe ty h w) ty = registered w ty) \<and>
   (allocated w \<and> ty' \<noteq> ty \<longrightarrow>
      registered (unsubscribe ty h w) ty' = registered w ty') \<and>
   (ownClasses w \<and> eventQueue w = [] \<and>
    (\<forall>x\<in>set (registered w ''sale''). x \<noteq> h \<longrightarrow> \<not> mutates w x (MachineSaleEvent q mid)) \<and>
    publish n (MachineSaleEvent q mid) (unsubscribe ''sale'' h w) = Some r \<longrightarrow>
      (\<exists>w'. r = Inr w' \<and> machines w' = machines w))"
proof (intro conjI impI)
  show f: "registered (unsubscribe ty h w) ty = filter (\<lambda>x. x \<noteq> h) (registered w ty)"
    by (rule registered_unsubscribe)
  then show "h \<notin> set (registered (unsubscribe ty h w) ty)" by simp
  show "unsubscribe ty h w = w" if "subscribers w ty = None"
    using that by (simp add: unsubscribe_def)
  show "registered (unsubscribe ty h w) ty = registered w ty" if "h \<notin> set (registered w ty)"
  proof -
    have "filter (\<lambda>x. x \<noteq> h) (registered w ty) = registered w ty"
      using that by (auto simp: filter_id_conv)
    then show ?thesis using f by simp
  qed
  show "registered (unsubscribe ty h w) ty' = registered w ty'" if "allocated w \<and> ty' \<noteq> ty"
    using that registered_unsubscribe_other by blast
next
  let ?e = "MachineSaleEvent q mid"
  let ?w1 = "unsubscribe ''sale'' h w"
  assume a: "ownClasses w \<and> eventQueue w = [] \<and>
    (\<forall>x\<in>set (registered w ''sale''). x \<noteq> h \<longrightarrow> \<not> mutates w x ?e) \<and>
    publish n ?e ?w1 = Some r"
  have o: "ownClasses ?w1" using a by (simp add: ownClasses_def)
  have q: "\<forall>x\<in>set (eventQueue ?w1). harmless ?w1 x" using a by simp
  have hl: "harmless ?w1 ?e" using a static_unsubscribe_harmless [of w "''sale''" h ?e] by simp
  have "\<exists>w'. r = Inr w' \<and> machines w' = machines ?w1"
    using publish_own [OF o q hl] a by blast
  then show "\<exists>w'. r = Inr w' \<and> machines w' = machines w" by simp
qed

text \<open>
  The main program after its last test: the sale subscriber is unsubscribed and the
  sales for \<^verbatim>\<open>001\<close> leave its level unchanged.
\<close>

theorem C6_unsubscribe_witness:
  "registered (unsubscribe ''sale'' 0 (wired (fleet 7 False))) ''sale'' = [2] \<and>
   unsubscribe ''A'' 0 (wired (fleet 7 False)) = wired (fleet 7 False) \<and>
   registered (unsubscribe ''refill'' 0 (wired (fleet 7 False))) ''refill''
     = registered (wired (fleet 7 False)) ''refill'' \<and>
   registered (unsubscribe ''sale'' 0 (wired (fleet 7 False))) ''refill''
     = registered (wired (fleet 7 False)) ''refill'' \<and>
   (\<exists>w'. publish 5 (MachineSaleEvent 2 ''001'') (unsubscribe ''sale'' 0 (wired (fleet 7 False)))
           = Some (Inr w') \<and> machines w' = machines (wired (fleet 7 False))) \<and>
   map_option (stockOf 0)
     (returned (publishAll 5 [MachineSaleEvent 2 ''001'', MachineSaleEvent 1 ''001'']
        (unsubscribe ''sale'' 0 (wired (fleet 7 False))))) = Some 7"
proof -
  let ?w = "wired (fleet 7 False)"
  let ?e = "MachineSaleEvent 2 ''001''"
  let ?p = "publish 5 ?e (unsubscribe ''sale'' 0 ?w)"
  note inst = C6_unsubscribe [where w = ?w and h = 0]
  have v: "filter (\<lambda>x. x \<noteq> 0) (registered ?w ''sale'') = [2]" by code_simp
  from inst [where ty = "''sale''", THEN conjunct1] v
  have 1: "registered (unsubscribe ''sale'' 0 ?w) ''sale'' = [2]" by simp
  have "subscribers ?w ''A'' = None" by code_simp
  with inst [where ty = "''A''", THEN conjunct2, THEN conjunct2, THEN conjunct1]
  have 2: "unsubscribe ''A'' 0 ?w = ?w" by blast
  have "0 \<notin> set (registered ?w ''refill'')" by code_simp
  with inst [where ty = "''refill''", THEN conjunct2, THEN conjunct2, THEN conjunct2,
      THEN conjunct1]
  have 3: "registered (unsubscribe ''refill'' 0 ?w) ''refill'' = registered ?w ''refill''"
    by blast
  have al: "allocated ?w"
    by (auto simp: allocated_def wired_def subscribe_def fleet_def Let_def split: if_splits)
  have ne: "''refill'' \<noteq> ''sale''" by simp
  from inst [where ty = "''sale''" and ty' = "''refill''", THEN conjunct2, THEN conjunct2,
      THEN conjunct2, THEN conjunct2, THEN conjunct1] al ne
  have 4: "registered (unsubscribe ''sale'' 0 ?w) ''refill'' = registered ?w ''refill''"
    by blast
  have oc: "ownClasses ?w" by (simp add: ownClasses_def wired_def fleet_def)
  have eq: "eventQueue ?w = []" by code_simp
  have nm: "\<forall>x\<in>set (registered ?w ''sale''). x \<noteq> 0 \<longrightarrow> \<not> mutates ?w x ?e" by code_simp
  have "\<not> Option.is_none ?p" by code_simp
  then have p: "?p = Some (the ?p)" by (simp add: Option.is_none_def)
  from inst [where ty = "''sale''" and q = 2 and mid = "''001''" and n = 5 and r = "the ?p",
      THEN conjunct2, THEN conjunct2, THEN conjunct2, THEN conjunct2, THEN conjunct2]
    oc eq nm p
  obtain w' where "the ?p = Inr w'" "machines w' = machines ?w" by blast
  then have 5: "\<exists>w'. ?p = Some (Inr w') \<and> machines w' = machines ?w" using p by simp
  have 6: "map_option (stockOf 0)
     (returned (publishAll 5 [MachineSaleEvent 2 ''001'', MachineSaleEvent 1 ''001'']
        (unsubscribe ''sale'' 0 ?w))) = Some 7"
    by code_simp
  show ?thesis using 1 2 3 4 5 6 by blast
qed

text \<open>
  The stock level is not unchanged after every \<^verbatim>\<open>unsubscribe\<close>: two sale
  subscribers have machine \<^verbatim>\<open>001\<close> in scope and are subscribed to \<^verbatim>\<open>sale\<close>; after
  the first is unsubscribed, a sale of 2 takes the level from 10 to 8.
\<close>

theorem C6_counterexample:
  "inScope twoSellers 0 0 \<and>
   idM (machines twoSellers 0) = ''001'' \<and>
   stockOf 0 (unsubscribe ''sale'' 0 twoSellers) = 10 \<and>
   registered (unsubscribe ''sale'' 0 twoSellers) ''sale'' = [4] \<and>
   map_option (stockOf 0)
     (returned (publish 5 (MachineSaleEvent 2 ''001'') (unsubscribe ''sale'' 0 twoSellers)))
     = Some 8"
  by code_simp

text \<open>
  C7. The \<^verbatim>\<open>for\<close> loop over the array that the registry has for the type of the
  dequeued event, when no handler of the array throws and none calls \<^verbatim>\<open>subscribe\<close> for
  the type of the event unless \<^verbatim>\<open>unsubscribe\<close> has been called for that type before it
  in this dispatch, by the same handler or by an earlier one: it returns, and it has
  called every handler of the array as it was at the start, once each and in its order,
  and no other. \<^verbatim>\<open>unsubscribe\<close> leaves the array that is being iterated as it is and
  puts the filtered array in the registry, where the next dequeue finds it.
\<close>

theorem C7_unsubscribe_mid_dispatch:
  "(isPublishing w \<and> allocated w \<and> separate w \<and> subscribers w (type_of e) = Some a \<and>
    safeHandlers w (type_of e) e False (handlerArrays w a) \<longrightarrow>
      (\<exists>w'. for_loop (Suc (length (handlerArrays w a)) + n) a 0 e w = Some (Inr w') \<and>
            handled w' = handled w @ map (\<lambda>h. (h, e)) (handlerArrays w a) \<and>
            handlerArrays w' a = handlerArrays w a)) \<and>
   (subscribers w ty = Some a \<and> a < nextHandlerArray w \<longrightarrow>
      handlerArrays (unsubscribe ty h w) a = handlerArrays w a \<and>
      registered (unsubscribe ty h w) ty = filter (\<lambda>x. x \<noteq> h) (handlerArrays w a))"
proof (intro conjI impI)
  assume a: "isPublishing w \<and> allocated w \<and> separate w \<and>
    subscribers w (type_of e) = Some a \<and>
    safeHandlers w (type_of e) e False (handlerArrays w a)"
  then have it: "iterating a (type_of e) w" using iterating_dispatch by blast
  have d: "False \<longrightarrow> detached a (type_of e) w" by simp
  have s: "safeHandlers w (type_of e) e False (drop 0 (handlerArrays w a))" using a by simp
  have l: "length (handlerArrays w a) - 0 < Suc (length (handlerArrays w a)) + n" by simp
  from for_loop_safe [OF it d s l]
  show "\<exists>w'. for_loop (Suc (length (handlerArrays w a)) + n) a 0 e w = Some (Inr w') \<and>
            handled w' = handled w @ map (\<lambda>h. (h, e)) (handlerArrays w a) \<and>
            handlerArrays w' a = handlerArrays w a"
    by simp
next
  assume b: "subscribers w ty = Some a \<and> a < nextHandlerArray w"
  then show "handlerArrays (unsubscribe ty h w) a = handlerArrays w a"
    by (simp add: unsubscribe_def)
  show "registered (unsubscribe ty h w) ty = filter (\<lambda>x. x \<noteq> h) (handlerArrays w a)"
    using b by (simp add: registered_unsubscribe) (simp add: registered_def)
qed

text \<open>
  The first handler of A unsubscribes the second one, and in \<open>rejoiner\<close> subscribes it
  again: the A being dispatched reaches both, once each. After \<open>leaver\<close> the next A
  reaches the first only.
\<close>

theorem C7_unsubscribe_mid_dispatch_witness:
  "map_option handled (returned (for_loop 3 0 0 evA (beginDrain leaver)))
     = Some [(0, evA), (1, evA)] \<and>
   map_option handled (returned (for_loop 3 0 0 evA (beginDrain rejoiner)))
     = Some [(0, evA), (1, evA)] \<and>
   handlerArrays (unsubscribe ''A'' 1 leaver) 0 = handlerArrays leaver 0 \<and>
   registered (unsubscribe ''A'' 1 leaver) ''A'' = [0] \<and>
   map_option handled (returned (publishAll 5 [evA, evA] leaver))
     = Some [(0, evA), (1, evA), (0, evA)]"
proof -
  let ?w = "beginDrain leaver"
  have a: "isPublishing ?w" "subscribers ?w (type_of evA) = Some 0"
    "safeHandlers ?w (type_of evA) evA False (handlerArrays ?w 0)"
    by code_simp+
  have al: "allocated ?w"
    by (auto simp: allocated_def beginDrain_def leaver_def subscribe_def custom_def fleet_def
          Let_def split: if_splits)
  have se: "separate ?w"
    by (auto simp: separate_def beginDrain_def leaver_def subscribe_def custom_def fleet_def
          Let_def split: if_splits)
  have l: "Suc (length (handlerArrays ?w 0)) + 0 = 3" by code_simp
  have v: "handled ?w @ map (\<lambda>h. (h, evA)) (handlerArrays ?w 0) = [(0, evA), (1, evA)]"
    by code_simp
  from C7_unsubscribe_mid_dispatch [where w = ?w and a = 0 and e = evA and n = 0,
      THEN conjunct1] a al se
  obtain w' where w': "for_loop (Suc (length (handlerArrays ?w 0)) + 0) 0 0 evA ?w = Some (Inr w')"
    "handled w' = handled ?w @ map (\<lambda>h. (h, evA)) (handlerArrays ?w 0)"
    by blast
  have f3: "for_loop 3 0 0 evA ?w = Some (Inr w')" using w'(1) by (simp only: l)
  have hw: "handled w' = [(0, evA), (1, evA)]" using w'(2) v by (rule trans)
  have 1: "map_option handled (returned (for_loop 3 0 0 evA ?w)) = Some [(0, evA), (1, evA)]"
    by (simp add: f3 returned_def hw)
  let ?u = "beginDrain rejoiner"
  have a': "isPublishing ?u" "subscribers ?u (type_of evA) = Some 0"
    "safeHandlers ?u (type_of evA) evA False (handlerArrays ?u 0)"
    by code_simp+
  have al': "allocated ?u"
    by (auto simp: allocated_def beginDrain_def rejoiner_def subscribe_def custom_def fleet_def
          Let_def split: if_splits)
  have se': "separate ?u"
    by (auto simp: separate_def beginDrain_def rejoiner_def subscribe_def custom_def fleet_def
          Let_def split: if_splits)
  have l': "Suc (length (handlerArrays ?u 0)) + 0 = 3" by code_simp
  have v': "handled ?u @ map (\<lambda>h. (h, evA)) (handlerArrays ?u 0) = [(0, evA), (1, evA)]"
    by code_simp
  from C7_unsubscribe_mid_dispatch [where w = ?u and a = 0 and e = evA and n = 0,
      THEN conjunct1] a' al' se'
  obtain u' where u': "for_loop (Suc (length (handlerArrays ?u 0)) + 0) 0 0 evA ?u = Some (Inr u')"
    "handled u' = handled ?u @ map (\<lambda>h. (h, evA)) (handlerArrays ?u 0)"
    by blast
  have g3: "for_loop 3 0 0 evA ?u = Some (Inr u')" using u'(1) by (simp only: l')
  have hu: "handled u' = [(0, evA), (1, evA)]" using u'(2) v' by (rule trans)
  have 2: "map_option handled (returned (for_loop 3 0 0 evA ?u)) = Some [(0, evA), (1, evA)]"
    by (simp add: g3 returned_def hu)
  have s: "subscribers leaver ''A'' = Some 0" "0 < nextHandlerArray leaver"
    "filter (\<lambda>x. x \<noteq> 1) (handlerArrays leaver 0) = [0]"
    by code_simp+
  from C7_unsubscribe_mid_dispatch [where w = leaver and a = 0 and ty = "''A''" and h = 1,
      THEN conjunct2] s
  have 3: "handlerArrays (unsubscribe ''A'' 1 leaver) 0 = handlerArrays leaver 0"
    "registered (unsubscribe ''A'' 1 leaver) ''A'' = [0]"
    by simp_all
  have 4: "map_option handled (returned (publishAll 5 [evA, evA] leaver))
     = Some [(0, evA), (1, evA), (0, evA)]"
    by code_simp
  show ?thesis using 1 2 3 4 by blast
qed

text \<open>
  Without the condition on \<^verbatim>\<open>subscribe\<close> the event is not delivered once to each
  handler: \<^verbatim>\<open>subscribe\<close> pushes onto the array that is being iterated. The first
  handler of A subscribes the second one once more and then unsubscribes itself; the
  registry had the two handlers when A was dequeued, and A reaches the second one
  twice. The first handler is out of the registry afterwards.
\<close>

theorem C7_counterexample:
  "registered resubscriber ''A'' = [0, 1] \<and>
   \<not> isPublishing resubscriber \<and> eventQueue resubscriber = [] \<and>
   map_option handled (returned (publish 5 evA resubscriber))
     = Some [(0, evA), (1, evA), (1, evA)] \<and>
   map_option (\<lambda>w. registered w ''A'') (returned (publish 5 evA resubscriber))
     = Some [1, 1]"
  by code_simp

text \<open>
  C8. With the router at rest, \<^verbatim>\<open>publish\<close> of an event whose type has no handlers
  returns, and only the history has changed. A subscriber of the four classes that has
  no machine with the id of the event in its scope returns nothing and changes
  nothing.
\<close>

theorem C8_silent_noop:
  "(\<not> isPublishing w \<and> eventQueue w = [] \<and> registered w (type_of e) = [] \<longrightarrow>
      publish (Suc (Suc n)) e w =
        Some (Inr (w\<lparr>enqueued := enqueued w @ [e], dequeued := dequeued w @ [e],
                    maxActiveDrains := max (maxActiveDrains w) (activeDrains w + 1)\<rparr>))) \<and>
   (\<not> isOther (objects w h) \<and> \<not> knowsId w h (machineId e') \<longrightarrow>
      handle k h e' w = Some (Inr (Void, w)))"
  using publish_no_handlers handle_unknown by blast

text \<open>
  In the main program: an event of an unknown type, and a sale for the unknown machine
  \<^verbatim>\<open>009\<close> at the sale subscriber and at the stock-warning subscriber.
\<close>

theorem C8_silent_noop_witness:
  "publish (Suc (Suc 0)) evA (wired (fleet 10 False)) =
     Some (Inr ((wired (fleet 10 False))
       \<lparr>enqueued := enqueued (wired (fleet 10 False)) @ [evA],
        dequeued := dequeued (wired (fleet 10 False)) @ [evA],
        maxActiveDrains := max (maxActiveDrains (wired (fleet 10 False)))
                               (activeDrains (wired (fleet 10 False)) + 1)\<rparr>)) \<and>
   handle 0 0 (MachineSaleEvent 1 ''009'') (wired (fleet 10 False)) =
     Some (Inr (Void, wired (fleet 10 False))) \<and>
   handle 0 2 (MachineSaleEvent 1 ''009'') (wired (fleet 10 False)) =
     Some (Inr (Void, wired (fleet 10 False)))"
proof -
  let ?w = "wired (fleet 10 False)"
  have a: "\<not> isPublishing ?w" "eventQueue ?w = []" "registered ?w (type_of evA) = []"
    by code_simp+
  have b: "\<not> isOther (objects ?w 0)" "\<not> knowsId ?w 0 (machineId (MachineSaleEvent 1 ''009''))"
    "\<not> isOther (objects ?w 2)" "\<not> knowsId ?w 2 (machineId (MachineSaleEvent 1 ''009''))"
    by code_simp+
  from C8_silent_noop [where w = ?w and e = evA and n = 0, THEN conjunct1] a
  have 1: "publish (Suc (Suc 0)) evA ?w =
     Some (Inr (?w\<lparr>enqueued := enqueued ?w @ [evA], dequeued := dequeued ?w @ [evA],
        maxActiveDrains := max (maxActiveDrains ?w) (activeDrains ?w + 1)\<rparr>))"
    by blast
  from C8_silent_noop [where w = ?w and h = 0 and e' = "MachineSaleEvent 1 ''009''" and k = 0,
      THEN conjunct2] b
  have 2: "handle 0 0 (MachineSaleEvent 1 ''009'') ?w = Some (Inr (Void, ?w))" by blast
  from C8_silent_noop [where w = ?w and h = 2 and e' = "MachineSaleEvent 1 ''009''" and k = 0,
      THEN conjunct2] b
  have 3: "handle 0 2 (MachineSaleEvent 1 ''009'') ?w = Some (Inr (Void, ?w))" by blast
  show ?thesis using 1 2 3 by blast
qed

text \<open>
  C9. After \<^verbatim>\<open>removeMachine(m)\<close> on a sale subscriber, the subscriber handles a sale
  event with the id of \<open>m\<close> without changing anything, the registry is as it was (the
  subscriber is still subscribed), and a sale event with another id changes the stock
  of the machine that the subscriber found for this id before the removal.
\<close>

theorem C9_scope_removal:
  "objects w h = MachineSaleSubscriber a \<longrightarrow>
     handle n h (MachineSaleEvent q (idM (machines w m))) (removeMachine h m w) =
       Some (Inr (Void, removeMachine h m w)) \<and>
     subscribers (removeMachine h m w) = subscribers w \<and>
     handlerArrays (removeMachine h m w) = handlerArrays w \<and>
     (findIndex (\<lambda>x. idM (machines w x) = mid) (machineArrays w a) = Some i \<and>
      mid \<noteq> idM (machines w m) \<longrightarrow>
        handle n h (MachineSaleEvent q mid) (removeMachine h m w) =
          Some (Inr (Void, addStock (machineArrays w a ! i) (- q) (removeMachine h m w))))"
  using handle_sale_removed removeMachine_registry handle_sale_kept by blast

text \<open>
  In the main program, machine \<^verbatim>\<open>001\<close> removed from the sale subscriber: a sale for
  \<^verbatim>\<open>001\<close> changes nothing, a sale of 2 for \<^verbatim>\<open>002\<close> brings its level to 8.
\<close>

theorem C9_scope_removal_witness:
  "handle 0 0 (MachineSaleEvent 2 (idM (machines (wired (fleet 10 False)) 0)))
     (removeMachine 0 0 (wired (fleet 10 False))) =
     Some (Inr (Void, removeMachine 0 0 (wired (fleet 10 False)))) \<and>
   registered (removeMachine 0 0 (wired (fleet 10 False))) ''sale'' = [0, 2] \<and>
   handle 0 0 (MachineSaleEvent 2 ''002'') (removeMachine 0 0 (wired (fleet 10 False))) =
     Some (Inr (Void, addStock (machineArrays (wired (fleet 10 False)) 0 ! 1) (- 2)
                        (removeMachine 0 0 (wired (fleet 10 False))))) \<and>
   stockOf 1 (addStock (machineArrays (wired (fleet 10 False)) 0 ! 1) (- 2)
                (removeMachine 0 0 (wired (fleet 10 False)))) = 8"
proof -
  let ?w = "wired (fleet 10 False)"
  have o: "objects ?w 0 = MachineSaleSubscriber 0" by (simp add: wired_def fleet_def)
  have f: "findIndex (\<lambda>x. idM (machines ?w x) = ''002'') (machineArrays ?w 0) = Some 1"
    "''002'' \<noteq> idM (machines ?w 0)"
    by code_simp+
  have r: "registered (removeMachine 0 0 ?w) ''sale'' = [0, 2]" by code_simp
  have s: "stockOf 1 (addStock (machineArrays ?w 0 ! 1) (- 2) (removeMachine 0 0 ?w)) = 8"
    by code_simp
  from C9_scope_removal [where w = ?w and h = 0 and a = 0 and m = 0 and n = 0 and q = 2
      and mid = "''002''" and i = 1] o f
  have "handle 0 0 (MachineSaleEvent 2 (idM (machines ?w 0))) (removeMachine 0 0 ?w) =
          Some (Inr (Void, removeMachine 0 0 ?w))"
    "handle 0 0 (MachineSaleEvent 2 ''002'') (removeMachine 0 0 ?w) =
       Some (Inr (Void, addStock (machineArrays ?w 0 ! 1) (- 2) (removeMachine 0 0 ?w)))"
    by blast+
  then show ?thesis using r s by blast
qed

text \<open>
  C10. After \<^verbatim>\<open>removeMachine(m2)\<close> on a subscriber of the four classes, a Machine
  object is in the scope of the subscriber exactly when it was in it before and its id
  is not the id of \<open>m2\<close>, whatever object \<open>m2\<close> is.
\<close>

theorem C10_remove_by_id:
  "inScope (removeMachine h m2 w) h m =
     (inScope w h m \<and> idM (machines w m) \<noteq> idM (machines w m2))"
  by (rule inScope_removeMachine)

text \<open>
  Machine objects 0 and 3 both have the id \<^verbatim>\<open>001\<close>, and only object 0 is in scope:
  \<^verbatim>\<open>removeMachine\<close> of object 3 removes object 0 and keeps the machine \<^verbatim>\<open>002\<close>, at
  the sale subscriber and at the stock-warning subscriber.
\<close>

theorem C10_remove_by_id_witness:
  "idM (machines (fleet 10 False) 3) = idM (machines (fleet 10 False) 0) \<and>
   inScope (fleet 10 False) 0 0 \<and> \<not> inScope (removeMachine 0 3 (fleet 10 False)) 0 0 \<and>
   inScope (removeMachine 0 3 (fleet 10 False)) 0 1 \<and>
   inScope (fleet 10 False) 2 0 \<and> \<not> inScope (removeMachine 2 3 (fleet 10 False)) 2 0 \<and>
   inScope (removeMachine 2 3 (fleet 10 False)) 2 1"
proof -
  let ?w = "fleet 10 False"
  have a: "idM (machines ?w 3) = idM (machines ?w 0)" "idM (machines ?w 1) \<noteq> idM (machines ?w 3)"
    "inScope ?w 0 0" "inScope ?w 0 1" "inScope ?w 2 0" "inScope ?w 2 1"
    by code_simp+
  show ?thesis
    using a C10_remove_by_id [of 0 3 ?w 0] C10_remove_by_id [of 0 3 ?w 1]
      C10_remove_by_id [of 2 3 ?w 0] C10_remove_by_id [of 2 3 ?w 1]
    by simp
qed

end
